theory Spec2Isabelle
  imports Complex_Main
begin

section \<open>Python values used by the path-analysis functions\<close>

text \<open>
  State names are Python strings, modelled as \<open>string\<close>. A Viterbi path is the list of
  the names of its states, the first and last entries being the model's start and end;
  \<open>vpath[1:-1]\<close> drops both. Exceptions are values of \<open>py_error\<close>.
\<close>

datatype py_error = IndexError | ValueError | ZeroDivisionError | TypeError

definition startswith :: "string \<Rightarrow> string \<Rightarrow> bool" where
  "startswith s p = (take (length p) s = p)"

definition endswith :: "string \<Rightarrow> string \<Rightarrow> bool" where
  "endswith s p = (length p \<le> length s \<and> drop (length s - length p) s = p)"

text \<open>\<open>p in s\<close> for strings: some suffix of \<open>s\<close> starts with \<open>p\<close>.\<close>

fun contains :: "string \<Rightarrow> string \<Rightarrow> bool" where
  "contains [] p = (p = [])"
| "contains (c # cs) p = (startswith (c # cs) p \<or> contains cs p)"

text \<open>
  The subscript \<open>xs[i]\<close>: a position from the left when \<open>i\<close> is not negative, from the
  right when it is, and IndexError when the list has no such position.
\<close>

definition py_index :: "'a list \<Rightarrow> int \<Rightarrow> py_error + 'a" where
  "py_index xs i =
     (if 0 \<le> i \<and> i < int (length xs) then Inr (xs ! nat i)
      else if i < 0 \<and> - int (length xs) \<le> i then Inr (xs ! nat (int (length xs) + i))
      else Inl IndexError)"

definition visited_states_of :: "string list \<Rightarrow> string list" where
  "visited_states_of vpath = butlast (tl vpath)"

definition is_match_state :: "string \<Rightarrow> bool" where
  "is_match_state state_name = (if startswith state_name ''M'' then True else False)"

definition is_emitting_state :: "string \<Rightarrow> bool" where
  "is_emitting_state state_name =
     (if startswith state_name ''M'' \<or> startswith state_name ''I''
         \<or> startswith state_name ''start_random_matches''
         \<or> startswith state_name ''end_random_matches''
      then True else False)"

section \<open>Emitted base at a state\<close>

text \<open>
  The loop of \<open>get_emitted_basepair_from_visited_states\<close>, with \<open>base_pair_idx\<close> as
  the accumulator. Falling off the end of the loop returns \<open>None\<close>.
\<close>

fun emitted_basepair_loop :: "string \<Rightarrow> string list \<Rightarrow> string \<Rightarrow> nat \<Rightarrow> py_error + char option" where
  "emitted_basepair_loop state [] sequence base_pair_idx = Inr None"
| "emitted_basepair_loop state (visited_state # rest) sequence base_pair_idx =
     (if visited_state = state then
        (case py_index sequence (int base_pair_idx) of
           Inl e \<Rightarrow> Inl e
         | Inr c \<Rightarrow> Inr (Some c))
      else emitted_basepair_loop state rest sequence
             (if is_emitting_state visited_state then base_pair_idx + 1 else base_pair_idx))"

definition get_emitted_basepair_from_visited_states ::
    "string \<Rightarrow> string list \<Rightarrow> string \<Rightarrow> py_error + char option" where
  "get_emitted_basepair_from_visited_states state visited_states sequence =
     emitted_basepair_loop state visited_states sequence 0"

section \<open>Repeat count of a decoded path\<close>

text \<open>
  The local variables of the scanning loop of \<open>get_number_of_repeats_in_vpath\<close>.
  Python's \<open>None\<close> for the four positions is \<open>None\<close> of the option type.
\<close>

record repeat_scan =
  current_bp :: nat
  starts :: nat
  ends :: nat
  first_end :: "nat option"
  last_end :: "nat option"
  first_start :: "nat option"
  last_start :: "nat option"

definition repeat_scan_init :: repeat_scan where
  "repeat_scan_init = \<lparr>current_bp = 0, starts = 0, ends = 0, first_end = None,
      last_end = None, first_start = None, last_start = None\<rparr>"

text \<open>
  One iteration of the loop over \<open>visited_states\<close>; the constant
  \<open>minimum_required_bp_in_repeat\<close> is 3. The difference
  \<open>read_length - current_bp\<close> is taken over the integers, as Python does.
\<close>

definition repeat_scan_step :: "nat \<Rightarrow> string \<Rightarrow> repeat_scan \<Rightarrow> repeat_scan" where
  "repeat_scan_step read_length vs s =
     (let s1 = (if is_emitting_state vs then s\<lparr>current_bp := current_bp s + 1\<rparr> else s);
          s2 = (if startswith vs ''unit_start'' \<and> int read_length - int (current_bp s1) \<ge> 3
                then s1\<lparr>first_start := (if first_start s1 = None then Some (current_bp s1)
                                           else first_start s1),
                        last_start := Some (current_bp s1),
                        starts := starts s1 + 1\<rparr>
                else s1);
          s3 = (if startswith vs ''unit_end'' \<and> current_bp s2 \<ge> 3
                then s2\<lparr>first_end := (if first_end s2 = None then Some (current_bp s2)
                                         else first_end s2),
                        last_end := Some (current_bp s2),
                        ends := ends s2 + 1\<rparr>
                else s2)
      in s3)"

definition get_number_of_repeats_in_vpath :: "string list \<Rightarrow> nat" where
  "get_number_of_repeats_in_vpath vpath =
     (let visited_states = visited_states_of vpath;
          read_length = length (filter is_emitting_state visited_states);
          s = fold (repeat_scan_step read_length) visited_states repeat_scan_init;
          delta = (case (last_start s, first_start s, last_end s, first_end s) of
                     (Some ls, Some fs, Some le, Some fe) \<Rightarrow>
                        (if fe < fs \<and> ls > le then 1 else 0)
                   | _ \<Rightarrow> 0)
      in max (starts s) (ends s) + delta)"

subsection \<open>The repeat count as the specification words it\<close>








section \<open>Recruitment of an unmapped read\<close>

definition get_number_of_repeat_bp_matches_in_vpath :: "string list \<Rightarrow> nat" where
  "get_number_of_repeat_bp_matches_in_vpath vpath =
     fold (\<lambda>v result. if is_emitting_state v \<and> \<not> endswith v ''fix'' then result + 1 else result)
       (visited_states_of vpath) 0"

text \<open>
  \<open>process_unmapped_read\<close> decodes both strands, keeps one, and updates three shared
  values: the best read seen so far, the repeat base pairs counted and the list of
  selected reads. The decoder \<open>hmm.viterbi\<close> and \<open>reverse_complement\<close> belong to
  libraries and are parameters; a log-probability is a value of any linear order, which
  covers the finite scores and minus infinity. The thresholds are the two fields set by
  the constructor of \<open>VNTRFinder\<close>.
\<close>

text \<open>
  The reverse complement of a read over the alphabet A, C, G, T (other symbols, such as N,
  are their own complement), for decoding concrete reads.
\<close>

definition complement_base :: "char \<Rightarrow> char" where
  "complement_base c =
     (if c = CHR ''A'' then CHR ''T'' else if c = CHR ''T'' then CHR ''A''
      else if c = CHR ''C'' then CHR ''G'' else if c = CHR ''G'' then CHR ''C'' else c)"

definition reverse_complement_dna :: "string \<Rightarrow> string" where
  "reverse_complement_dna s = map complement_base (rev s)"

definition min_repeat_bp_to_add_read :: nat where
  "min_repeat_bp_to_add_read = 2"

definition min_repeat_bp_to_count_repeats :: nat where
  "min_repeat_bp_to_count_repeats = 2"

record 'l recruitment =
  vntr_bp_in_unmapped_reads :: nat
  selected_reads :: "(string \<times> 'l \<times> string list) list"
  best_seq :: "'l \<times> string \<times> string list"

definition select_strand ::
    "(string \<Rightarrow> 'l::linorder \<times> string list) \<Rightarrow> (string \<Rightarrow> string) \<Rightarrow> string
       \<Rightarrow> string \<times> 'l \<times> string list" where
  "select_strand viterbi reverse_complement read_str =
     (let sequence = read_str;
          (logp, vpath) = viterbi sequence;
          (rev_logp, rev_vpath) = viterbi (reverse_complement read_str)
      in if logp < rev_logp then (reverse_complement read_str, rev_logp, rev_vpath)
         else (sequence, logp, vpath))"

definition process_unmapped_read ::
    "(string \<Rightarrow> 'l::linorder \<times> string list) \<Rightarrow> (string \<Rightarrow> string) \<Rightarrow> 'l \<Rightarrow> string
       \<Rightarrow> 'l recruitment \<Rightarrow> 'l recruitment" where
  "process_unmapped_read viterbi reverse_complement min_score_to_count_read read_str st =
     (if count_list read_str CHR ''N'' \<le> 0 then
        (let (sequence, logp, vpath) = select_strand viterbi reverse_complement read_str;
             st1 = (if logp > fst (best_seq st) then st\<lparr>best_seq := (logp, sequence, vpath)\<rparr>
                    else st);
             repeat_bps = get_number_of_repeat_bp_matches_in_vpath vpath
         in if logp > min_score_to_count_read then
              (let st2 = (if repeat_bps > min_repeat_bp_to_count_repeats
                          then st1\<lparr>vntr_bp_in_unmapped_reads :=
                                     vntr_bp_in_unmapped_reads st1 + repeat_bps\<rparr>
                          else st1)
               in if repeat_bps > min_repeat_bp_to_add_read
                  then st2\<lparr>selected_reads := selected_reads st2 @ [(sequence, logp, vpath)]\<rparr>
                  else st2)
            else st1)
      else st)"


section \<open>Null-score collection\<close>

text \<open>
  The fields of an alignment record that \<open>add_false_read_scores_of_chromosome\<close> reads,
  and the fields of the reference VNTR. \<open>reference_end\<close> may be \<open>None\<close>. The length of
  the VNTR is the value of \<open>get_length()\<close>.
\<close>

record aligned_read =
  is_unmapped :: bool
  reference_start :: int
  reference_end :: "int option"
  reference_name :: string
  seq :: string

record reference_vntr =
  start_point :: int
  vntr_length :: int
  chromosome :: string
  pattern :: string
  repeat_segments :: "string list"
  left_flanking_region :: string
  right_flanking_region :: string

text \<open>
  The loop over the reads of one chromosome. \<open>random()\<close> is the stream \<open>draws\<close>, read at
  position \<open>k\<close>; a draw is consumed for every mapped read. The result is the list of
  reads handed to \<open>add_hmm_score_to_list\<close>, that is, the reads that are scored.
  \<open>read.reference_end if read.reference_end else ...\<close> takes the alternative for
  \<open>None\<close> and for 0.
\<close>

fun add_false_read_scores_of_chromosome ::
    "reference_vntr \<Rightarrow> rat \<Rightarrow> (nat \<Rightarrow> rat) \<Rightarrow> nat \<Rightarrow> aligned_read list \<Rightarrow> aligned_read list" where
  "add_false_read_scores_of_chromosome vntr fraction draws k [] = []"
| "add_false_read_scores_of_chromosome vntr fraction draws k (read # reads) =
     (if is_unmapped read then add_false_read_scores_of_chromosome vntr fraction draws k reads
      else if draws k > fraction
        then add_false_read_scores_of_chromosome vntr fraction draws (k + 1) reads
      else
        (let read_start = reference_start read;
             read_end = (case reference_end read of
                           None \<Rightarrow> read_start + int (length (seq read))
                         | Some e \<Rightarrow> if e \<noteq> 0 then e else read_start + int (length (seq read)));
             vntr_start = start_point vntr;
             vntr_end = vntr_start + vntr_length vntr;
             name = (if \<not> startswith (reference_name read) ''chr''
                     then ''chr'' @ reference_name read else reference_name read)
         in if name = chromosome vntr \<and>
               ((vntr_start \<le> read_start \<and> read_start < vntr_end)
                \<or> (vntr_start < read_end \<and> read_end \<le> vntr_end))
              then add_false_read_scores_of_chromosome vntr fraction draws (k + 1) reads
            else if count_list (seq read) CHR ''N'' > 0
              then add_false_read_scores_of_chromosome vntr fraction draws (k + 1) reads
            else read # add_false_read_scores_of_chromosome vntr fraction draws (k + 1) reads))"


section \<open>Arguments of the read-matcher build\<close>

text \<open>
  Python's \<open>round\<close> on a rational argument. Python 2 rounds a half away from zero,
  Python 3 rounds a half to the even neighbour; both are modelled and the interpreter's
  choice is a parameter. A quotient of two integers of the sizes met here is a tie only
  when it is one in exact arithmetic, so the floating-point quotient is modelled by the
  rational one.
\<close>

datatype rounding = HalfAwayFromZero | HalfToEven

definition py_round :: "rounding \<Rightarrow> rat \<Rightarrow> int" where
  "py_round mode x =
     (if x - of_int \<lfloor>x\<rfloor> < 1 / 2 then \<lfloor>x\<rfloor>
      else if x - of_int \<lfloor>x\<rfloor> > 1 / 2 then \<lfloor>x\<rfloor> + 1
      else (case mode of
              HalfAwayFromZero \<Rightarrow> (if x \<ge> 0 then \<lfloor>x\<rfloor> + 1 else \<lfloor>x\<rfloor>)
            | HalfToEven \<Rightarrow> (if even \<lfloor>x\<rfloor> then \<lfloor>x\<rfloor> else \<lfloor>x\<rfloor> + 1)))"

text \<open>Python's slices \<open>s[-k:]\<close> and \<open>s[:k]\<close> for an integer \<open>k\<close> of either sign.\<close>

definition slice_from_neg :: "'a list \<Rightarrow> int \<Rightarrow> 'a list" where
  "slice_from_neg s k =
     (if k > 0 then drop (length s - nat k) s else drop (nat (- k)) s)"

definition slice_to :: "'a list \<Rightarrow> int \<Rightarrow> 'a list" where
  "slice_to s k = (if k \<ge> 0 then take (nat k) s else take (length s - nat (- k)) s)"

text \<open>
  The arguments \<open>build_vntr_matcher_hmm\<close> hands to \<open>get_read_matcher_model\<close>: the two
  flanks, the pattern list and the number of copies.
\<close>

definition build_vntr_matcher_hmm ::
    "reference_vntr \<Rightarrow> int \<Rightarrow> int \<Rightarrow> string \<times> string \<times> string list \<times> int" where
  "build_vntr_matcher_hmm vntr copies flanking_region_size =
     (let patterns = concat (replicate 100 (repeat_segments vntr));
          left_flank = slice_from_neg (left_flanking_region vntr) flanking_region_size;
          right_flank = slice_to (right_flanking_region vntr) flanking_region_size
      in (left_flank, right_flank, patterns, copies))"

text \<open>
  \<open>get_vntr_matcher_hmm\<close> on the path that builds the model (no stored model is
  loaded). The division raises ZeroDivisionError for an empty pattern.
\<close>

definition get_vntr_matcher_hmm ::
    "rounding \<Rightarrow> reference_vntr \<Rightarrow> nat \<Rightarrow> py_error + string \<times> string \<times> string list \<times> int" where
  "get_vntr_matcher_hmm mode vntr read_length =
     (if length (pattern vntr) = 0 then Inl ZeroDivisionError
      else
        (let copies = py_round mode
                        (of_nat read_length / of_nat (length (pattern vntr)) + 1 / 2);
             flanking_region_size = int read_length - 10
         in Inr (build_vntr_matcher_hmm vntr copies flanking_region_size)))"


section \<open>Transition matrix of the read matcher\<close>

text \<open>
  \<open>get_read_matcher_model\<close> concatenates the three matchers with the HMM library, reads
  the dense transition matrix of the result, edits it and builds the final model from
  the edited matrix. The library's product is the input here: the names of
  \<open>model.states\<close>, \<open>model.start_index\<close>, \<open>model.end_index\<close> and the dense matrix,
  whose entry \<open>mat[i][j]\<close> is the probability of the transition from state \<open>i\<close> to
  state \<open>j\<close>. Probabilities are exact rationals.
\<close>

text \<open>\<open>name.split('_')[-1]\<close>: what follows the last underscore.\<close>

definition last_field :: "string \<Rightarrow> string" where
  "last_field name = rev (takeWhile (\<lambda>c. c \<noteq> CHR ''_'') (rev name))"

definition first_repeat_match :: "string \<Rightarrow> bool" where
  "first_repeat_match name = (hd name = CHR ''M'' \<and> last_field name = ''0'')"

definition repeat_match :: "string \<Rightarrow> bool" where
  "repeat_match name = (hd name = CHR ''M'' \<and> last_field name \<notin> set [''prefix'', ''suffix''])"

record state_scan =
  first_repeat_matches :: "nat list"
  repeat_match_states :: "nat list"
  suffix_start :: "nat option"

definition state_scan_init :: state_scan where
  "state_scan_init = \<lparr>first_repeat_matches = [], repeat_match_states = [], suffix_start = None\<rparr>"

text \<open>One iteration of the loop over \<open>enumerate(model.states)\<close>.\<close>

definition scan_state :: "string list \<Rightarrow> nat \<Rightarrow> state_scan \<Rightarrow> state_scan" where
  "scan_state names i s =
     (let name = names ! i;
          s1 = (if first_repeat_match name
                then s\<lparr>first_repeat_matches := first_repeat_matches s @ [i]\<rparr> else s);
          s2 = (if repeat_match name
                then s1\<lparr>repeat_match_states := repeat_match_states s1 @ [i]\<rparr> else s1);
          s3 = (if name = ''suffix_start_suffix'' then s2\<lparr>suffix_start := Some i\<rparr> else s2)
      in s3)"

text \<open>
  The edit of the row of the start state. With \<open>suffix_start\<close> still \<open>None\<close> the
  assignment \<open>mat[start][None] = 0.3\<close> of the array library writes the whole row.
\<close>

definition set_start_row :: "nat option \<Rightarrow> nat list \<Rightarrow> rat list \<Rightarrow> rat list" where
  "set_start_row ss frm row =
     (let row1 = (case ss of None \<Rightarrow> map (\<lambda>x. 3 / 10) row | Some j \<Rightarrow> row[j := 3 / 10])
      in fold (\<lambda>first_repeat_match r. r[first_repeat_match := (7 / 10) / of_nat (length frm)])
           frm row1)"

text \<open>The edit of the row of one repeat match state.\<close>

definition renormalize_row :: "nat \<Rightarrow> nat \<Rightarrow> rat list \<Rightarrow> rat list" where
  "renormalize_row end_index n row =
     (let to_end = (7 / 10) / of_nat n;
          total = 1 + to_end
      in (map (\<lambda>x. if x \<noteq> 0 then x / total else x) row)[end_index := to_end / total])"

text \<open>
  The arguments of \<open>Model.from_matrix\<close>: the edited matrix, the vectors of the
  probabilities from the new model's start into each state and from each state into the
  new model's end, and the state names.
\<close>

record matrix_model =
  trans_mat :: "rat list list"
  starts_vec :: "rat list"
  ends_vec :: "rat list"
  state_names :: "string list"

text \<open>\<open>state.name[0]\<close> raises IndexError on an empty name, before any edit.\<close>

definition get_read_matcher_model ::
    "string list \<Rightarrow> nat \<Rightarrow> nat \<Rightarrow> rat list list \<Rightarrow> py_error + matrix_model" where
  "get_read_matcher_model names start_index end_index mat0 =
     (if [] \<in> set names then Inl IndexError
      else
        (let s = fold (scan_state names) [0..<length names] state_scan_init;
             mat1 = mat0[start_index :=
                      set_start_row (suffix_start s) (first_repeat_matches s) (mat0 ! start_index)];
             mat2 = fold (\<lambda>match_state m.
                            m[match_state := renormalize_row end_index
                                 (length (repeat_match_states s)) (m ! match_state)])
                      (repeat_match_states s) mat1
         in Inr \<lparr>trans_mat = mat2,
                 starts_vec = (replicate (length names) 0)[start_index := 1],
                 ends_vec = (replicate (length names) 0)[end_index := 1],
                 state_names = names\<rparr>))"

text \<open>
  A dense matrix over \<open>n\<close> states from a list of weighted edges, for concrete models.
\<close>

definition dense_matrix :: "nat \<Rightarrow> (nat \<times> nat \<times> rat) list \<Rightarrow> rat list list" where
  "dense_matrix n edges =
     map (\<lambda>i. map (\<lambda>j. sum_list (map (\<lambda>(a, b, p). if a = i \<and> b = j then p else 0) edges))
                 [0..<n]) [0..<n]"

text \<open>
  A read matcher with one column per flank and three copies of a two-column repeat,
  reduced to its match states and gateways: the state names, and the transitions before
  the edit.
\<close>

definition example_names :: "string list" where
  "example_names =
     [''Suffix Matcher HMM Model-start'', ''suffix_start_suffix'', ''M1_suffix'',
      ''suffix_end_suffix'', ''unit_start_0'', ''M1_0'', ''M2_0'', ''unit_end_0'',
      ''unit_start_1'', ''M1_1'', ''M2_1'', ''unit_end_1'',
      ''unit_start_2'', ''M1_2'', ''M2_2'', ''unit_end_2'',
      ''prefix_start_prefix'', ''M1_prefix'', ''prefix_end_prefix'',
      ''Prefix Matcher HMM Model-end'']"

definition example_mat :: "rat list list" where
  "example_mat = dense_matrix 20
     [(0, 1, 1), (1, 2, 1), (2, 3, 1), (3, 4, 1), (4, 5, 1), (5, 6, 1), (6, 7, 1),
      (7, 8, 1 / 2), (7, 16, 1 / 2), (8, 9, 1), (9, 10, 1), (10, 11, 1),
      (11, 12, 1 / 2), (11, 16, 1 / 2), (12, 13, 1), (13, 14, 1), (14, 15, 1),
      (15, 16, 1), (16, 17, 1), (17, 18, 1), (18, 19, 1)]"


section \<open>Flank match rate\<close>

text \<open>
  \<open>int(s)\<close> for a byte string: surrounding white space is dropped, one sign is allowed,
  and what remains must be a non-empty run of decimal digits; anything else raises
  ValueError.
\<close>

definition is_space :: "char \<Rightarrow> bool" where
  "is_space c = (c \<in> set [CHR '' '', CHR 0x09, CHR 0x0A, CHR 0x0B, CHR 0x0C, CHR 0x0D])"

definition strip :: "string \<Rightarrow> string" where
  "strip s = rev (dropWhile is_space (rev (dropWhile is_space s)))"

definition digit_of :: "char \<Rightarrow> nat option" where
  "digit_of c =
     (let k = length (takeWhile (\<lambda>d. d \<noteq> c) ''0123456789'')
      in if k < 10 then Some k else None)"

fun digits_value :: "string \<Rightarrow> nat \<Rightarrow> nat option" where
  "digits_value [] acc = Some acc"
| "digits_value (c # cs) acc =
     (case digit_of c of None \<Rightarrow> None | Some d \<Rightarrow> digits_value cs (10 * acc + d))"

definition py_int :: "string \<Rightarrow> py_error + int" where
  "py_int s =
     (let t = strip s;
          negative = (t \<noteq> [] \<and> hd t = CHR ''-'');
          digits = (if t \<noteq> [] \<and> (hd t = CHR ''-'' \<or> hd t = CHR ''+'') then tl t else t)
      in if digits = [] then Inl ValueError
         else (case digits_value digits 0 of
                 None \<Rightarrow> Inl ValueError
               | Some v \<Rightarrow> Inr (if negative then - int v else int v)))"

text \<open>\<open>name.split("_")[0][1:]\<close>: the first field of the name without its first character.\<close>

definition column_field :: "string \<Rightarrow> string" where
  "column_field name = tl (takeWhile (\<lambda>c. c \<noteq> CHR ''_'') name)"

text \<open>
  \<open>a[i] == b[j]\<close>: both subscripts are evaluated, the left one first, and either may
  raise.
\<close>

definition py_eq_at :: "string \<Rightarrow> int \<Rightarrow> string \<Rightarrow> int \<Rightarrow> py_error + bool" where
  "py_eq_at a i b j =
     (case py_index a i of
        Inl e \<Rightarrow> Inl e
      | Inr x \<Rightarrow> (case py_index b j of Inl e \<Rightarrow> Inl e | Inr y \<Rightarrow> Inr (x = y)))"

text \<open>
  The first loop of \<open>get_flanking_regions_matching_rate\<close>: the column of the state
  visited just before \<open>suffix_end_suffix\<close>, and \<open>-1\<close> when the path does not visit it.
\<close>

fun find_max_hmm_index :: "string \<Rightarrow> string list \<Rightarrow> py_error + int" where
  "find_max_hmm_index prev_state [] = Inr (- 1)"
| "find_max_hmm_index prev_state (state # rest) =
     (if contains state ''suffix_end_suffix'' then py_int (column_field prev_state)
      else find_max_hmm_index state rest)"

record flank_scan =
  right_flanking_matches :: nat
  right_flanking_basepairs :: nat
  left_flanking_matches :: nat
  left_flanking_basepairs :: nat
  seq_index :: nat

definition flank_scan_init :: flank_scan where
  "flank_scan_init = \<lparr>right_flanking_matches = 0, right_flanking_basepairs = 0,
      left_flanking_matches = 0, left_flanking_basepairs = 0, seq_index = 0\<rparr>"

text \<open>
  The body of the second loop for a state tagged \<open>prefix\<close>. With \<open>verbose\<close> the
  logging call evaluates both subscripts whatever the kind of the state.
\<close>

definition prefix_update ::
    "bool \<Rightarrow> string \<Rightarrow> string \<Rightarrow> int \<Rightarrow> string \<Rightarrow> flank_scan \<Rightarrow> py_error + flank_scan" where
  "prefix_update verbose sequence right_flank hmm_state v s =
     (case (if verbose \<or> is_match_state v
            then py_eq_at sequence (int (seq_index s)) right_flank (hmm_state - 1)
            else Inr False) of
        Inl e \<Rightarrow> Inl e
      | Inr same \<Rightarrow>
          Inr (s\<lparr>right_flanking_matches :=
                    (if is_match_state v \<and> same then right_flanking_matches s + 1
                     else right_flanking_matches s),
                 right_flanking_basepairs :=
                    (if is_emitting_state v then right_flanking_basepairs s + 1
                     else right_flanking_basepairs s)\<rparr>))"

definition suffix_update ::
    "bool \<Rightarrow> string \<Rightarrow> string \<Rightarrow> int \<Rightarrow> int \<Rightarrow> string \<Rightarrow> flank_scan \<Rightarrow> py_error + flank_scan" where
  "suffix_update verbose sequence left_flank max_hmm_index hmm_state v s =
     (case (if verbose \<or> is_match_state v
            then py_eq_at sequence (int (seq_index s)) left_flank
                   (- (max_hmm_index - hmm_state + 1))
            else Inr False) of
        Inl e \<Rightarrow> Inl e
      | Inr same \<Rightarrow>
          Inr (s\<lparr>left_flanking_matches :=
                    (if is_match_state v \<and> same then left_flanking_matches s + 1
                     else left_flanking_matches s),
                 left_flanking_basepairs :=
                    (if is_emitting_state v then left_flanking_basepairs s + 1
                     else left_flanking_basepairs s)\<rparr>))"

text \<open>One iteration of the second loop.\<close>

definition flank_step ::
    "bool \<Rightarrow> string \<Rightarrow> string \<Rightarrow> string \<Rightarrow> int \<Rightarrow> string \<Rightarrow> flank_scan \<Rightarrow> py_error + flank_scan" where
  "flank_step verbose sequence left_flank right_flank max_hmm_index v s =
     (if contains v ''start'' \<or> contains v ''end'' then Inr s
      else
        (case py_int (column_field v) of
           Inl e \<Rightarrow> Inl e
         | Inr hmm_state \<Rightarrow>
            (case (if endswith v ''prefix''
                   then prefix_update verbose sequence right_flank hmm_state v s
                   else Inr s) of
               Inl e \<Rightarrow> Inl e
             | Inr s1 \<Rightarrow>
                (case (if endswith v ''suffix''
                       then suffix_update verbose sequence left_flank max_hmm_index hmm_state v s1
                       else Inr s1) of
                   Inl e \<Rightarrow> Inl e
                 | Inr s2 \<Rightarrow>
                     Inr (if is_emitting_state v then s2\<lparr>seq_index := seq_index s2 + 1\<rparr>
                          else s2)))))"

fun flank_loop ::
    "bool \<Rightarrow> string \<Rightarrow> string \<Rightarrow> string \<Rightarrow> int \<Rightarrow> string list \<Rightarrow> flank_scan
       \<Rightarrow> py_error + flank_scan" where
  "flank_loop verbose sequence left_flank right_flank max_hmm_index [] s = Inr s"
| "flank_loop verbose sequence left_flank right_flank max_hmm_index (v # rest) s =
     (case flank_step verbose sequence left_flank right_flank max_hmm_index v s of
        Inl e \<Rightarrow> Inl e
      | Inr s1 \<Rightarrow> flank_loop verbose sequence left_flank right_flank max_hmm_index rest s1)"

text \<open>
  The rate of one side: \<open>float(matches) / basepairs\<close>, and for a side without emitted
  bases \<open>epsilon = 0.00001\<close> with the accuracy filter and 1 without it.
\<close>

definition side_rate :: "bool \<Rightarrow> nat \<Rightarrow> nat \<Rightarrow> rat" where
  "side_rate accuracy_filter matches basepairs =
     (if accuracy_filter
      then (if basepairs \<noteq> 0 then of_nat matches / of_nat basepairs else 1 / 100000)
      else (if basepairs \<noteq> 0 then of_nat matches / of_nat basepairs else 1))"

definition get_flanking_regions_matching_rate ::
    "string list \<Rightarrow> string \<Rightarrow> string \<Rightarrow> string \<Rightarrow> bool \<Rightarrow> bool \<Rightarrow> py_error + rat" where
  "get_flanking_regions_matching_rate vpath sequence left_flank right_flank
       accuracy_filter verbose =
     (let visited_states = visited_states_of vpath
      in case visited_states of
           [] \<Rightarrow> Inl IndexError
         | first # _ \<Rightarrow>
            (case find_max_hmm_index first visited_states of
               Inl e \<Rightarrow> Inl e
             | Inr max_hmm_index \<Rightarrow>
                (case flank_loop verbose sequence left_flank right_flank max_hmm_index
                        visited_states flank_scan_init of
                   Inl e \<Rightarrow> Inl e
                 | Inr s \<Rightarrow>
                    (let right_rate = side_rate accuracy_filter (right_flanking_matches s)
                                        (right_flanking_basepairs s);
                         left_rate = side_rate accuracy_filter (left_flanking_matches s)
                                        (left_flanking_basepairs s)
                     in Inr (min right_rate left_rate)))))"

subsection \<open>The flank match rate as the specification words it\<close>

text \<open>
  A state is scanned when it belongs to a profile column, that is, when its name has
  neither \<open>start\<close> nor \<open>end\<close> in it. The base a state emits is the base of the sequence
  at the number of scanned emitting states before it. The emitted bases of a side are
  counted over the scanned emitting states carrying its tag.
\<close>

definition scanned :: "string \<Rightarrow> bool" where
  "scanned v = (\<not> contains v ''start'' \<and> \<not> contains v ''end'')"

definition emitted_before :: "string list \<Rightarrow> nat \<Rightarrow> nat" where
  "emitted_before vs i = length (filter (\<lambda>v. scanned v \<and> is_emitting_state v) (take i vs))"

definition flank_emitted :: "string \<Rightarrow> string \<Rightarrow> bool" where
  "flank_emitted tag v = (scanned v \<and> endswith v tag \<and> is_emitting_state v)"

definition count_positions :: "(string \<Rightarrow> nat \<Rightarrow> bool) \<Rightarrow> string list \<Rightarrow> nat" where
  "count_positions P vs =
     length (filter (\<lambda>i. P (vs ! i) (emitted_before vs i)) [0..<length vs])"

text \<open>
  The decimal numeral of a natural number, as the builders write a column into a state
  name with \<open>'M%s_%s' % (i, tag)\<close>.
\<close>

definition digit_char :: "nat \<Rightarrow> char" where
  "digit_char d = ''0123456789'' ! d"

fun string_of_nat :: "nat \<Rightarrow> string" where
  "string_of_nat n =
     (if n < 10 then [digit_char n]
      else string_of_nat (n div 10) @ [digit_char (n mod 10)])"

declare string_of_nat.simps [simp del]

text \<open>
  The column of a state is the integer its name carries after the first character of its
  first field. The last column of the left flank in a path is the column of the state
  visited just before the first state whose name has \<open>suffix_end_suffix\<close> in it (of the
  first state itself when nothing precedes it), and \<open>-1\<close> when there is no such state.
\<close>

definition state_column :: "string \<Rightarrow> int option" where
  "state_column v = (case py_int (column_field v) of Inl e \<Rightarrow> None | Inr c \<Rightarrow> Some c)"

definition last_suffix_column :: "string list \<Rightarrow> int option" where
  "last_suffix_column vs =
     (let before = takeWhile (\<lambda>v. \<not> contains v ''suffix_end_suffix'') vs
      in if before = vs then Some (- 1)
         else state_column (if before = [] then hd vs else last before))"

text \<open>
  A match state tagged \<open>prefix\<close> in column \<open>c\<close> matches when the base it emits is the
  base \<open>c - 1\<close> of the right flank. A match state tagged \<open>suffix\<close> in column \<open>c\<close> matches
  when the base it emits is the base of the left flank at distance \<open>last_column - c\<close>
  from the right end of the flank. Outside these ranges (a column below 1 on the right, a
  column beyond the last column on the left, which the states of a profile do not have)
  the subscript of the source counts from the other end of the flank.
\<close>

definition right_flank_match :: "string \<Rightarrow> string \<Rightarrow> string \<Rightarrow> nat \<Rightarrow> bool" where
  "right_flank_match sequence right_flank v pos =
     (scanned v \<and> endswith v ''prefix'' \<and> is_match_state v \<and>
      (case state_column v of
         None \<Rightarrow> False
       | Some c \<Rightarrow>
           pos < length sequence \<and>
           (if 1 \<le> c
            then nat (c - 1) < length right_flank
                 \<and> sequence ! pos = right_flank ! nat (c - 1)
            else nat (1 - c) \<le> length right_flank
                 \<and> sequence ! pos = rev right_flank ! nat (- c))))"

definition left_flank_match :: "string \<Rightarrow> string \<Rightarrow> int \<Rightarrow> string \<Rightarrow> nat \<Rightarrow> bool" where
  "left_flank_match sequence left_flank last_column v pos =
     (scanned v \<and> endswith v ''suffix'' \<and> is_match_state v \<and>
      (case state_column v of
         None \<Rightarrow> False
       | Some c \<Rightarrow>
           pos < length sequence \<and>
           (if c \<le> last_column
            then nat (last_column - c) < length left_flank
                 \<and> sequence ! pos = rev left_flank ! nat (last_column - c)
            else nat (c - last_column - 1) < length left_flank
                 \<and> sequence ! pos = left_flank ! nat (c - last_column - 1))))"

text \<open>
  A decoded path of the read \<open>TACCAGTCGT\<close> for the pattern \<open>CAG\<close>: columns 1 to 3 of a
  left flank (the flank handed to the function, \<open>GGAC\<close>, being one base longer than the
  three columns), one repeat, and on the right flank \<open>TCA\<close> three columns with one
  insertion.
\<close>

definition example_vpath :: "string list" where
  "example_vpath =
     [''Read Matcher-start'', ''Suffix Matcher HMM Model-start'', ''suffix_start_suffix'',
      ''M1_suffix'', ''M2_suffix'', ''M3_suffix'', ''suffix_end_suffix'',
      ''Suffix Matcher HMM Model-end'',
      ''unit_start_0'', ''M1_0'', ''M2_0'', ''M3_0'', ''unit_end_0'', ''prefix_start_prefix'',
      ''M1_prefix'', ''M2_prefix'', ''I2_prefix'', ''M3_prefix'', ''prefix_end_prefix'',
      ''Read Matcher-end'']"

text \<open>
  The test the loop makes on a match state, with the subscript of the flank as a function
  of the column, and the counts over a path split into a part already scanned and a part
  still to scan: the forms the induction over the loop works with.
\<close>

definition flank_hit :: "string \<Rightarrow> string \<Rightarrow> string \<Rightarrow> (int \<Rightarrow> int) \<Rightarrow> string \<Rightarrow> nat \<Rightarrow> bool" where
  "flank_hit tag sequence flank position v pos =
     (scanned v \<and> endswith v tag \<and> is_match_state v \<and>
      (case py_int (column_field v) of
         Inl e \<Rightarrow> False
       | Inr column \<Rightarrow> py_eq_at sequence (int pos) flank (position column) = Inr True))"

definition emitted_count :: "string list \<Rightarrow> nat" where
  "emitted_count xs = length (filter (\<lambda>v. scanned v \<and> is_emitting_state v) xs)"

definition count_from :: "(string \<Rightarrow> nat \<Rightarrow> bool) \<Rightarrow> string list \<Rightarrow> string list \<Rightarrow> nat" where
  "count_from P xs ys =
     length (filter (\<lambda>i. P ((xs @ ys) ! i) (emitted_before (xs @ ys) i))
               [length xs..<length xs + length ys])"

section \<open>Frameshift detection\<close>

text \<open>
  \<open>get_repeating_pattern_lengths\<close>: one iteration of its loop over the positions of the
  path, with the list of lengths and \<open>prev_start\<close> as the state. The inner loop counts
  the emitting states of \<open>visited_states[prev_start:i]\<close>.
\<close>

definition lengths_step :: "string list \<Rightarrow> nat \<Rightarrow> nat list \<times> nat option \<Rightarrow> nat list \<times> nat option" where
  "lengths_step visited_states i st =
     (let lengths = fst st; prev_start = snd st;
          lengths1 = (case prev_start of
                        None \<Rightarrow> lengths
                      | Some p \<Rightarrow>
                          if startswith (visited_states ! i) ''unit_end''
                          then lengths @ [length (filter is_emitting_state
                                                    (take (i - p) (drop p visited_states)))]
                          else lengths);
          prev_start1 = (if startswith (visited_states ! i) ''unit_start'' then Some i
                         else prev_start)
      in (lengths1, prev_start1))"

definition get_repeating_pattern_lengths :: "string list \<Rightarrow> nat list" where
  "get_repeating_pattern_lengths visited_states =
     fst (fold (lengths_step visited_states) [0..<length visited_states] ([], None))"

text \<open>
  The dictionary \<open>mutations\<close> as an association list in the order of first insertion.
\<close>

definition bump_mutation :: "string \<Rightarrow> (string \<times> nat) list \<Rightarrow> (string \<times> nat) list" where
  "bump_mutation state mutations =
     (if state \<in> fst ` set mutations
      then map (\<lambda>(k, c). if k = state then (k, c + 1) else (k, c)) mutations
      else mutations @ [(state, 1)])"

text \<open>\<open>name.split('_')[0]\<close>.\<close>

definition first_field :: "string \<Rightarrow> string" where
  "first_field name = takeWhile (\<lambda>c. c \<noteq> CHR ''_'') name"

text \<open>
  The label of an insertion or deletion state: its first field, followed for an
  insertion by the base returned by \<open>get_emitted_basepair_from_visited_states\<close>.
  Appending \<open>None\<close> to a string raises TypeError.
\<close>

definition mutation_label :: "string list \<Rightarrow> string \<Rightarrow> string \<Rightarrow> py_error + string" where
  "mutation_label visited_states sequence v =
     (let state = first_field v
      in if startswith state ''I''
         then (case get_emitted_basepair_from_visited_states v visited_states sequence of
                 Inl e \<Rightarrow> Inl e
               | Inr None \<Rightarrow> Inl TypeError
               | Inr (Some b) \<Rightarrow> Inr (state @ [b]))
         else Inr state)"

text \<open>
  One iteration of the loop over the states of one read; the state of the loop is
  \<open>current_repeat\<close> and the dictionary. A \<open>continue\<close> keeps what was assigned before it.
\<close>

definition frameshift_step ::
    "nat \<Rightarrow> string list \<Rightarrow> string \<Rightarrow> nat list \<Rightarrow> string
       \<Rightarrow> nat option \<times> (string \<times> nat) list \<Rightarrow> py_error + nat option \<times> (string \<times> nat) list" where
  "frameshift_step pattern_length visited_states sequence repeats_lengths v st =
     (let current_repeat = fst st; mutations = snd st
      in if endswith v ''fix'' \<or> startswith v ''M'' then Inr (current_repeat, mutations)
         else
           (let current_repeat1 =
                  (if startswith v ''unit_start''
                   then (case current_repeat of None \<Rightarrow> Some 0 | Some c \<Rightarrow> Some (c + 1))
                   else current_repeat)
            in case current_repeat1 of
                 None \<Rightarrow> Inr (current_repeat1, mutations)
               | Some c \<Rightarrow>
                   if c \<ge> length repeats_lengths then Inr (current_repeat1, mutations)
                   else if \<not> startswith v ''I'' \<and> \<not> startswith v ''D''
                     then Inr (current_repeat1, mutations)
                   else
                     (case mutation_label visited_states sequence v of
                        Inl e \<Rightarrow> Inl e
                      | Inr state \<Rightarrow>
                          Inr (current_repeat1,
                               if repeats_lengths ! c \<noteq> pattern_length
                               then bump_mutation state mutations else mutations))))"

fun frameshift_loop ::
    "nat \<Rightarrow> string list \<Rightarrow> string \<Rightarrow> nat list \<Rightarrow> string list
       \<Rightarrow> nat option \<times> (string \<times> nat) list \<Rightarrow> py_error + nat option \<times> (string \<times> nat) list" where
  "frameshift_loop pattern_length visited_states sequence repeats_lengths [] st = Inr st"
| "frameshift_loop pattern_length visited_states sequence repeats_lengths (v # rest) st =
     (case frameshift_step pattern_length visited_states sequence repeats_lengths v st of
        Inl e \<Rightarrow> Inl e
      | Inr st1 \<Rightarrow>
          frameshift_loop pattern_length visited_states sequence repeats_lengths rest st1)"

text \<open>
  The loop over the selected reads, with the dictionary and \<open>repeating_bps_in_data\<close> as
  the state.
\<close>

fun frameshift_reads ::
    "nat \<Rightarrow> (string \<times> 'l \<times> string list) list \<Rightarrow> (string \<times> nat) list \<times> nat
       \<Rightarrow> py_error + (string \<times> nat) list \<times> nat" where
  "frameshift_reads pattern_length [] st = Inr st"
| "frameshift_reads pattern_length ((sequence, logp, vpath) # rest) st =
     (let visited_states = visited_states_of vpath;
          repeats_lengths = get_repeating_pattern_lengths visited_states;
          repeating_bps_in_data = snd st + get_number_of_repeat_bp_matches_in_vpath vpath
      in case frameshift_loop pattern_length visited_states sequence repeats_lengths
                visited_states (None, fst st) of
           Inl e \<Rightarrow> Inl e
         | Inr st1 \<Rightarrow> frameshift_reads pattern_length rest (snd st1, repeating_bps_in_data))"

text \<open>
  What \<open>find_frameshift_from_selected_reads\<close> computes: the dictionary, the candidate
  (the last item of the items sorted by count, or \<open>(None, 0)\<close>), the repeat base pairs in
  the data, and whether the frameshift message is printed.
\<close>

record frameshift_report =
  mutations :: "(string \<times> nat) list"
  frameshift_candidate :: "string option \<times> nat"
  repeating_bps_in_data :: nat
  frameshift_reported :: bool

definition find_frameshift_from_selected_reads ::
    "reference_vntr \<Rightarrow> (string \<times> 'l \<times> string list) list \<Rightarrow> py_error + frameshift_report" where
  "find_frameshift_from_selected_reads vntr reads =
     (case frameshift_reads (length (pattern vntr)) reads ([], 0) of
        Inl e \<Rightarrow> Inl e
      | Inr (muts, bps) \<Rightarrow>
          (let sorted_mutations = sort_key snd muts;
               candidate = (if length sorted_mutations \<noteq> 0
                            then (Some (fst (last sorted_mutations)), snd (last sorted_mutations))
                            else (None, 0))
           in if vntr_length vntr = 0 then Inl ZeroDivisionError
              else
                (let avg_bp_coverage = (of_nat bps :: rat) / of_int (vntr_length vntr)
                 in Inr \<lparr>mutations = muts, frameshift_candidate = candidate,
                         repeating_bps_in_data = bps,
                         frameshift_reported = (of_nat (snd candidate) > avg_bp_coverage / 3)\<rparr>)))"

subsection \<open>The aggregated events as the specification words them\<close>

text \<open>
  The emitted length of a repeat unit: one length for every \<open>unit_end\<close> state that has a
  \<open>unit_start\<close> state before it in the path, namely the number of emitting states from
  the last such \<open>unit_start\<close> up to that \<open>unit_end\<close>; the lengths are listed in the
  order of the \<open>unit_end\<close> states.
\<close>

definition unit_starts_before :: "string list \<Rightarrow> nat \<Rightarrow> nat list" where
  "unit_starts_before vs i = filter (\<lambda>j. startswith (vs ! j) ''unit_start'') [0..<i]"

definition unit_lengths :: "string list \<Rightarrow> nat list" where
  "unit_lengths vs =
     map (\<lambda>i. length (filter (\<lambda>j. is_emitting_state (vs ! j))
                          [last (unit_starts_before vs i)..<i]))
       (filter (\<lambda>i. startswith (vs ! i) ''unit_end'' \<and> unit_starts_before vs i \<noteq> [])
          [0..<length vs])"

text \<open>
  Position \<open>i\<close> of a path lies in the repeat unit opened by the last \<open>unit_start\<close> state
  up to and including \<open>i\<close>; units are numbered from 0. An indel event is a visit of an
  insertion or deletion state of the repeat (not of a flank) inside a unit that has a
  recorded emitted length different from the length of the pattern.
\<close>

definition opens_unit :: "string \<Rightarrow> bool" where
  "opens_unit v = (startswith v ''unit_start'' \<and> \<not> endswith v ''fix'' \<and> \<not> startswith v ''M'')"

definition unit_of :: "string list \<Rightarrow> nat option" where
  "unit_of xs = (let k = length (filter opens_unit xs) in if k = 0 then None else Some (k - 1))"

definition indel_state :: "string \<Rightarrow> bool" where
  "indel_state v = (\<not> endswith v ''fix'' \<and> \<not> startswith v ''M''
                     \<and> (startswith v ''I'' \<or> startswith v ''D''))"

definition counted_event :: "nat \<Rightarrow> nat list \<Rightarrow> string \<Rightarrow> nat option \<Rightarrow> bool" where
  "counted_event pattern_length lens v unit =
     (indel_state v \<and>
      (case unit of None \<Rightarrow> False
       | Some c \<Rightarrow> c < length lens \<and> lens ! c \<noteq> pattern_length))"

text \<open>
  The label of an event is the first field of the name of its state; for an insertion
  state it is followed by the base of the sequence that the path emits at the first visit
  of that state, that is, the base at the number of emitting states before the first
  occurrence of the state in the path.
\<close>

definition first_visit_position :: "string list \<Rightarrow> string \<Rightarrow> nat" where
  "first_visit_position vs v = length (filter is_emitting_state (takeWhile (\<lambda>u. u \<noteq> v) vs))"

definition event_label :: "string list \<Rightarrow> string \<Rightarrow> string \<Rightarrow> string" where
  "event_label vs sequence v =
     (if startswith v ''I'' then first_field v @ [sequence ! first_visit_position vs v]
      else first_field v)"

definition events_from :: "nat \<Rightarrow> string list \<Rightarrow> string \<Rightarrow> nat list \<Rightarrow> nat \<Rightarrow> nat \<Rightarrow> string list" where
  "events_from pattern_length vs sequence lens a b =
     map (\<lambda>i. event_label vs sequence (vs ! i))
       (filter (\<lambda>i. counted_event pattern_length lens (vs ! i) (unit_of (take (Suc i) vs)))
          [a..<b])"

definition indel_events :: "nat \<Rightarrow> string \<times> 'l \<times> string list \<Rightarrow> string list" where
  "indel_events pattern_length read =
     (let vs = visited_states_of (snd (snd read))
      in events_from pattern_length vs (fst read) (unit_lengths vs) 0 (length vs))"

text \<open>The repeat base pairs of a path: its emitting states outside the flanks.\<close>

definition repeat_bps :: "string list \<Rightarrow> nat" where
  "repeat_bps vpath =
     length (filter (\<lambda>v. is_emitting_state v \<and> \<not> endswith v ''fix'') (visited_states_of vpath))"

text \<open>The count the dictionary holds for a label, 0 for a label that is not a key.\<close>

definition table_count :: "(string \<times> nat) list \<Rightarrow> string \<Rightarrow> nat" where
  "table_count ms label = (case map_of ms label of None \<Rightarrow> 0 | Some c \<Rightarrow> c)"

text \<open>
  A read in the manner of scenario E4 of the specification: pattern \<open>CAG\<close>, one unit with
  its second column deleted, one with an inserted \<open>T\<close>, and one intact. A second read has
  one unit in which the insertion state of column 1 is visited twice, emitting \<open>C\<close> and
  then \<open>G\<close>.
\<close>

definition frameshift_example_read :: "string \<times> int \<times> string list" where
  "frameshift_example_read =
     (''ACGCATGCAGT'', - 12,
      [''Read Matcher-start'', ''M3_suffix'', ''suffix_end_suffix'',
       ''unit_start_0'', ''M1_0'', ''D2_0'', ''M3_0'', ''unit_end_0'',
       ''unit_start_1'', ''M1_1'', ''M2_1'', ''I2_1'', ''M3_1'', ''unit_end_1'',
       ''unit_start_2'', ''M1_2'', ''M2_2'', ''M3_2'', ''unit_end_2'',
       ''prefix_start_prefix'', ''M1_prefix'', ''D2_prefix'', ''prefix_end_prefix'',
       ''Read Matcher-end''])"

definition repeated_insertion_read :: "string \<times> int \<times> string list" where
  "repeated_insertion_read =
     (''CCGAG'', - 9,
      [''Read Matcher-start'', ''unit_start_0'', ''M1_0'', ''I1_0'', ''I1_0'', ''M2_0'',
       ''M3_0'', ''unit_end_0'', ''Read Matcher-end''])"

definition frameshift_example_vntr :: reference_vntr where
  "frameshift_example_vntr =
     \<lparr>start_point = 100, vntr_length = 9, chromosome = ''chr1'', pattern = ''CAG'',
      repeat_segments = [''CAG'', ''CAG'', ''CAG''], left_flanking_region = ''AAA'',
      right_flanking_region = ''TTT''\<rparr>"

section \<open>Copy-number estimate\<close>

definition get_left_flanking_region_size_in_vpath :: "string list \<Rightarrow> nat" where
  "get_left_flanking_region_size_in_vpath vpath =
     fold (\<lambda>v result. if is_emitting_state v \<and> endswith v ''suffix'' then result + 1 else result)
       (visited_states_of vpath) 0"

definition get_right_flanking_region_size_in_vpath :: "string list \<Rightarrow> nat" where
  "get_right_flanking_region_size_in_vpath vpath =
     fold (\<lambda>v result. if is_emitting_state v \<and> endswith v ''prefix'' then result + 1 else result)
       (visited_states_of vpath) 0"

text \<open>\<open>max\<close> of a list raises ValueError when the list is empty.\<close>

definition py_max :: "nat list \<Rightarrow> py_error + nat" where
  "py_max xs = (if xs = [] then Inl ValueError else Inr (Max (set xs)))"

text \<open>
  The loop of \<open>find_repeat_count_from_alignment_file\<close> over the selected reads, which
  fills \<open>flanked_repeats\<close> and \<open>observed_repeats\<close>.
\<close>

fun collect_repeats :: "(string \<times> 'l \<times> string list) list \<Rightarrow> nat list \<times> nat list
    \<Rightarrow> nat list \<times> nat list" where
  "collect_repeats [] acc = acc"
| "collect_repeats ((sequence, logp, vpath) # rest) acc =
     (let flanked_repeats = fst acc; observed_repeats = snd acc;
          repeats = get_number_of_repeats_in_vpath vpath;
          flanked_repeats1 =
            (if get_left_flanking_region_size_in_vpath vpath > 5
                \<and> get_right_flanking_region_size_in_vpath vpath > 5
             then flanked_repeats @ [repeats] else flanked_repeats)
      in collect_repeats rest (flanked_repeats1, observed_repeats @ [repeats]))"

text \<open>
  \<open>find_repeat_count_from_alignment_file\<close> from the point where the reads have been
  recruited: its inputs are the values the recruitment leaves (the selected reads and
  the two counts of VNTR base pairs) and the two results of the coverage collaborator,
  the mean coverage and the scaling function. The maximum of \<open>observed_repeats\<close> is
  computed for a message; a division by zero raises ZeroDivisionError.
\<close>

definition find_repeat_count_from_alignment_file ::
    "reference_vntr \<Rightarrow> (string \<times> 'l \<times> string list) list \<Rightarrow> nat \<Rightarrow> int \<Rightarrow> rat \<Rightarrow> (rat \<Rightarrow> rat)
       \<Rightarrow> py_error + rat" where
  "find_repeat_count_from_alignment_file vntr reads vntr_bp_in_unmapped vntr_bp_in_mapped
       mean_coverage get_scaled_coverage =
     (let repeats = collect_repeats reads ([], [])
      in case py_max (snd repeats) of
           Inl e \<Rightarrow> Inl e
         | Inr maximum_of_observed_repeats \<Rightarrow>
            (case find_frameshift_from_selected_reads vntr reads of
               Inl e \<Rightarrow> Inl e
             | Inr report \<Rightarrow>
                (let total_counted_vntr_bp = of_nat vntr_bp_in_unmapped + of_int vntr_bp_in_mapped
                 in if length (pattern vntr) = 0 then Inl ZeroDivisionError
                    else
                      (let pattern_occurrences =
                             total_counted_vntr_bp / of_nat (length (pattern vntr))
                       in if mean_coverage = 0 then Inl ZeroDivisionError
                          else
                            (let observed_copy_number = pattern_occurrences / mean_coverage;
                                 scaled_copy_number = get_scaled_coverage observed_copy_number
                             in if of_int vntr_bp_in_mapped + (of_nat vntr_bp_in_unmapped :: rat) = 0
                                then Inl ZeroDivisionError
                                else Inr scaled_copy_number)))))"


section \<open>Theorems\<close>

lemma py_index_nat:
  "py_index xs (int k) = (if k < length xs then Inr (xs ! k) else Inl IndexError)"
  by (simp add: py_index_def)

lemma emitted_basepair_loop_absent:
  "state \<notin> set vs \<Longrightarrow> emitted_basepair_loop state vs sequence k = Inr None"
  by (induction vs arbitrary: k) auto

lemma emitted_basepair_loop_present:
  "state \<in> set vs \<Longrightarrow>
   emitted_basepair_loop state vs sequence k =
     (let j = k + length (filter is_emitting_state (takeWhile (\<lambda>v. v \<noteq> state) vs))
      in if j < length sequence then Inr (Some (sequence ! j)) else Inl IndexError)"
proof (induction vs arbitrary: k)
  case Nil
  then show ?case by simp
next
  case (Cons v vs)
  show ?case
  proof (cases "v = state")
    case True
    then show ?thesis by (simp add: py_index_nat)
  next
    case False
    with Cons.prems have "state \<in> set vs" by simp
    from Cons.IH [OF this] False show ?thesis by (simp add: Let_def)
  qed
qed

text \<open>
  C10. \<open>get_emitted_basepair_from_visited_states\<close> returns \<open>None\<close> when the target state
  does not occur among the visited states. When it occurs, the function counts the
  emitting states before its first occurrence and returns the base of the sequence at
  that position; the subscript raises IndexError when the sequence has no such position.
\<close>

theorem get_emitted_basepair_from_visited_states_spec:
  "get_emitted_basepair_from_visited_states state visited_states sequence =
     (if state \<in> set visited_states then
        (let k = length (filter is_emitting_state (takeWhile (\<lambda>v. v \<noteq> state) visited_states))
         in if k < length sequence then Inr (Some (sequence ! k)) else Inl IndexError)
      else Inr None)"
  by (simp add: get_emitted_basepair_from_visited_states_def
        emitted_basepair_loop_absent emitted_basepair_loop_present)

theorem get_emitted_basepair_from_visited_states_witness:
  "get_emitted_basepair_from_visited_states ''I1_0''
      [''unit_start_0'', ''M1_0'', ''I1_0'', ''M2_0''] ''CAG'' = Inr (Some CHR ''A'')
   \<and> get_emitted_basepair_from_visited_states ''I2_0''
      [''unit_start_0'', ''M1_0'', ''I1_0'', ''M2_0''] ''CAG'' = Inr None"
  using get_emitted_basepair_from_visited_states_spec
          [of "''I1_0''" "[''unit_start_0'', ''M1_0'', ''I1_0'', ''M2_0'']" "''CAG''"]
        get_emitted_basepair_from_visited_states_spec
          [of "''I2_0''" "[''unit_start_0'', ''M1_0'', ''I1_0'', ''M2_0'']" "''CAG''"]
  by (simp add: is_emitting_state_def startswith_def)













lemma select_strand_cases:
  "select_strand viterbi reverse_complement read_str =
     (if fst (viterbi read_str) < fst (viterbi (reverse_complement read_str))
      then (reverse_complement read_str, viterbi (reverse_complement read_str))
      else (read_str, viterbi read_str))"
  by (simp add: select_strand_def Let_def split: prod.splits)

lemma process_unmapped_read_selected:
  "selected_reads (process_unmapped_read viterbi reverse_complement m read_str st) = selected_reads st
   \<or> selected_reads (process_unmapped_read viterbi reverse_complement m read_str st) =
       selected_reads st @ [select_strand viterbi reverse_complement read_str]"
  by (simp add: process_unmapped_read_def Let_def split: prod.splits)

text \<open>
  C9. In the strand selection of \<open>process_unmapped_read\<close> the reverse-complement strand
  is kept only when its Viterbi log-probability is strictly greater than the forward
  strand's; on a tie the forward sequence and its path are kept. The score kept is the
  larger of the two, and the tuple the function appends to \<open>selected_reads\<close>, when it
  appends one, is the selected strand: a function of the read, the decoder and nothing
  else.
\<close>

theorem process_unmapped_read_strand_selection:
  fixes viterbi :: "string \<Rightarrow> 'l::linorder \<times> string list"
  shows "(fst (viterbi read_str) < fst (viterbi (reverse_complement read_str)) \<longrightarrow>
            select_strand viterbi reverse_complement read_str =
              (reverse_complement read_str, viterbi (reverse_complement read_str)))
         \<and> (\<not> fst (viterbi read_str) < fst (viterbi (reverse_complement read_str)) \<longrightarrow>
            select_strand viterbi reverse_complement read_str = (read_str, viterbi read_str))
         \<and> (fst (viterbi read_str) = fst (viterbi (reverse_complement read_str)) \<longrightarrow>
            select_strand viterbi reverse_complement read_str = (read_str, viterbi read_str))
         \<and> fst (snd (select_strand viterbi reverse_complement read_str)) =
             max (fst (viterbi read_str)) (fst (viterbi (reverse_complement read_str)))
         \<and> (selected_reads (process_unmapped_read viterbi reverse_complement m read_str st)
              = selected_reads st
            \<or> selected_reads (process_unmapped_read viterbi reverse_complement m read_str st)
              = selected_reads st @ [select_strand viterbi reverse_complement read_str])"
  using process_unmapped_read_selected [of viterbi reverse_complement m read_str st]
  by (auto simp add: select_strand_cases max_def)

text \<open>
  The witness decodes a read whose two strands score the same (\<open>-5\<close>): the forward strand
  is selected and appended. A second decoder scores the reverse strand higher, and that
  strand is selected.
\<close>

theorem process_unmapped_read_strand_selection_witness:
  "select_strand (\<lambda>s. (- 5 :: int, [''start'', ''M1_0'', ''M2_0'', ''M3_0'', ''end'']))
       reverse_complement_dna ''CAG''
     = (''CAG'', - 5, [''start'', ''M1_0'', ''M2_0'', ''M3_0'', ''end''])
   \<and> select_strand (\<lambda>s. if s = ''CAG'' then (- 9 :: int, [''start'', ''I0_0'', ''end''])
                        else (- 5, [''start'', ''M1_0'', ''M2_0'', ''M3_0'', ''end'']))
       reverse_complement_dna ''CAG''
     = (''CTG'', - 5, [''start'', ''M1_0'', ''M2_0'', ''M3_0'', ''end''])
   \<and> selected_reads (process_unmapped_read
        (\<lambda>s. (- 5 :: int, [''start'', ''M1_0'', ''M2_0'', ''M3_0'', ''end'']))
        reverse_complement_dna (- 7) ''CAG''
        \<lparr>vntr_bp_in_unmapped_reads = 0, selected_reads = [], best_seq = (- 100, [], [])\<rparr>)
      = [(''CAG'', - 5, [''start'', ''M1_0'', ''M2_0'', ''M3_0'', ''end''])]"
proof -
  have rc: "reverse_complement_dna ''CAG'' = ''CTG''"
    by (simp add: reverse_complement_dna_def complement_base_def)
  have "selected_reads (process_unmapped_read
        (\<lambda>s. (- 5 :: int, [''start'', ''M1_0'', ''M2_0'', ''M3_0'', ''end'']))
        reverse_complement_dna (- 7) ''CAG''
        \<lparr>vntr_bp_in_unmapped_reads = 0, selected_reads = [], best_seq = (- 100, [], [])\<rparr>)
      \<noteq> []"
    by (simp add: process_unmapped_read_def select_strand_def Let_def
          get_number_of_repeat_bp_matches_in_vpath_def visited_states_of_def
          is_emitting_state_def startswith_def endswith_def
          min_repeat_bp_to_add_read_def min_repeat_bp_to_count_repeats_def)
  then show ?thesis
    using process_unmapped_read_strand_selection
            [of "\<lambda>s. (- 5 :: int, [''start'', ''M1_0'', ''M2_0'', ''M3_0'', ''end''])" "''CAG''"
                reverse_complement_dna "- 7"
                "\<lparr>vntr_bp_in_unmapped_reads = 0, selected_reads = [], best_seq = (- 100, [], [])\<rparr>"]
          process_unmapped_read_strand_selection
            [of "\<lambda>s. if s = ''CAG'' then (- 9 :: int, [''start'', ''I0_0'', ''end''])
                        else (- 5, [''start'', ''M1_0'', ''M2_0'', ''M3_0'', ''end''])" "''CAG''"
                reverse_complement_dna "- 7"
                "\<lparr>vntr_bp_in_unmapped_reads = 0, selected_reads = [], best_seq = (- 100, [], [])\<rparr>"]
    by (simp add: rc)
qed


text \<open>
  C6. A mapped read on the chromosome of the VNTR that strictly contains the locus is not
  skipped by the null-score collection: neither of its ends lies inside the locus, which
  is all the test of the source looks at. The VNTR occupies \<open>[100, 110)\<close> of chr1, the
  read \<open>[50, 200)\<close> of chr1; it has no N, it is sampled, and it is scored.
\<close>

theorem add_false_read_scores_scores_containing_read:
  "add_false_read_scores_of_chromosome
     \<lparr>start_point = 100, vntr_length = 10, chromosome = ''chr1'', pattern = ''CAGCA'',
      repeat_segments = [''CAGCA'', ''CAGCA''], left_flanking_region = ''AAAA'',
      right_flanking_region = ''TTTT''\<rparr>
     (1 / 1000) (\<lambda>k. 0) 0
     [\<lparr>is_unmapped = False, reference_start = 50, reference_end = Some 200,
       reference_name = ''chr1'', seq = ''ACGT''\<rparr>]
   = [\<lparr>is_unmapped = False, reference_start = 50, reference_end = Some 200,
       reference_name = ''chr1'', seq = ''ACGT''\<rparr>]"
  by (simp add: startswith_def)


lemma quotient_parts:
  assumes "0 < (l::nat)"
  obtains f :: rat where "of_nat r / of_nat l = of_nat (r div l) + f" "0 \<le> f" "f < 1"
    "(f < 1 / 2) = (2 * (r mod l) < l)" "(f = 0) = (l dvd r)"
proof -
  define f :: rat where "f = of_nat (r mod l) / of_nat l"
  have l: "(of_nat l :: rat) > 0" using assms by simp
  have "(of_nat r :: rat) = of_nat (r div l * l + r mod l)" by simp
  also have "\<dots> = of_nat (r div l) * of_nat l + of_nat (r mod l)"
    by (simp only: of_nat_add of_nat_mult)
  finally have split: "(of_nat r :: rat) = of_nat (r div l) * of_nat l + of_nat (r mod l)" .
  have q: "(of_nat r / of_nat l :: rat) = of_nat (r div l) + f"
    unfolding f_def using l by (subst split) (simp add: field_simps)
  have f0: "0 \<le> f" unfolding f_def by simp
  have "of_nat (r mod l) < (of_nat l :: rat)" using assms by simp
  then have f1: "f < 1" unfolding f_def using l by (simp add: field_simps)
  have "(f < 1 / 2) = (2 * of_nat (r mod l) < (of_nat l :: rat))"
    unfolding f_def using l by (simp add: field_simps)
  also have "\<dots> = (2 * (r mod l) < l)"
    by (metis of_nat_less_iff of_nat_mult of_nat_numeral)
  finally have fh: "(f < 1 / 2) = (2 * (r mod l) < l)" .
  have "(f = 0) = (r mod l = 0)" unfolding f_def using l by simp
  then have fz: "(f = 0) = (l dvd r)" by (simp add: dvd_eq_mod_eq_0)
  from q f0 f1 fh fz show thesis by (rule that)
qed

lemma py_round_quotient_half:
  assumes "0 < (l::nat)"
  shows "py_round mode (of_nat r / of_nat l + 1 / 2) =
           (if mode = HalfToEven \<and> l dvd r \<and> even (r div l) then int (r div l)
            else int (r div l) + 1)"
proof -
  obtain f :: rat where q: "of_nat r / of_nat l = of_nat (r div l) + f"
    and f0: "0 \<le> f" and f1: "f < 1" and fz: "(f = 0) = (l dvd r)"
    using quotient_parts [OF assms, of r] by blast
  define y :: rat where "y = of_nat r / of_nat l + 1 / 2"
  have y: "y = of_int (int (r div l)) + (f + 1 / 2)" by (simp add: y_def q)
  have ynn: "0 \<le> y" unfolding y using f0 by simp
  show ?thesis
  proof (cases "f < 1 / 2")
    case True
    then have fl: "\<lfloor>y\<rfloor> = int (r div l)"
      unfolding y using f0 by (intro floor_unique) simp_all
    have fr: "y - of_int \<lfloor>y\<rfloor> = f + 1 / 2" unfolding fl by (simp add: y)
    show ?thesis
    proof (cases "f = 0")
      case True
      with fz have d: "l dvd r" by simp
      from True fr have "y - of_int \<lfloor>y\<rfloor> = 1 / 2" by simp
      then show ?thesis
        unfolding y_def [symmetric] py_round_def using ynn d fl
        by (cases mode) simp_all
    next
      case False
      with fz have d: "\<not> l dvd r" by simp
      from False f0 fr have "y - of_int \<lfloor>y\<rfloor> > 1 / 2" by simp
      then show ?thesis
        unfolding y_def [symmetric] py_round_def using d fl by simp
    qed
  next
    case False
    then have h: "1 / 2 \<le> f" by simp
    then have fl: "\<lfloor>y\<rfloor> = int (r div l) + 1"
      unfolding y using f1 by (intro floor_unique) simp_all
    have fr: "y - of_int \<lfloor>y\<rfloor> = f - 1 / 2" unfolding fl by (simp add: y)
    from h fz have d: "\<not> l dvd r" by auto
    from fr f1 have "y - of_int \<lfloor>y\<rfloor> < 1 / 2" by simp
    then show ?thesis
      unfolding y_def [symmetric] py_round_def using d fl by simp
  qed
qed

lemma ceiling_quotient_half:
  assumes "0 < (l::nat)"
  shows "\<lceil>(of_nat r / of_nat l + 1 / 2 :: rat)\<rceil> =
           (if 2 * (r mod l) \<le> l then int (r div l) + 1 else int (r div l) + 2)"
proof -
  obtain f :: rat where q: "of_nat r / of_nat l = of_nat (r div l) + f"
    and f0: "0 \<le> f" and f1: "f < 1" and fh: "(f < 1 / 2) = (2 * (r mod l) < l)"
    using quotient_parts [OF assms, of r] by blast
  have l: "(of_nat l :: rat) > 0" using assms by simp
  have feq: "(f = 1 / 2) = (2 * (r mod l) = l)"
  proof -
    have "f = of_nat r / of_nat l - of_nat (r div l)" using q by simp
    have "(of_nat r :: rat) = of_nat (r div l * l + r mod l)" by simp
    also have "\<dots> = of_nat (r div l) * of_nat l + of_nat (r mod l)"
      by (simp only: of_nat_add of_nat_mult)
    finally have "of_nat (r div l) * of_nat l + of_nat (r mod l)
                    = (of_nat (r div l) + f) * (of_nat l :: rat)"
      using q l by (simp add: field_simps)
    then have fm: "f * of_nat l = (of_nat (r mod l) :: rat)" by (simp add: algebra_simps)
    have "(f = 1 / 2) = (2 * (f * of_nat l) = (of_nat l :: rat))" using l by auto
    also have "\<dots> = (2 * of_nat (r mod l) = (of_nat l :: rat))" by (simp only: fm)
    also have "\<dots> = (2 * (r mod l) = l)"
      by (metis of_nat_eq_iff of_nat_mult of_nat_numeral)
    finally show ?thesis .
  qed
  show ?thesis
  proof (cases "2 * (r mod l) \<le> l")
    case True
    with fh feq have "f \<le> 1 / 2" by (cases "2 * (r mod l) = l") auto
    then have "\<lceil>(of_int (int (r div l)) + (f + 1 / 2) :: rat)\<rceil> = int (r div l) + 1"
      using f0 by (intro ceiling_unique) simp_all
    with True show ?thesis by (simp add: q add.assoc)
  next
    case False
    with fh feq have "f > 1 / 2" by auto
    then have "\<lceil>(of_int (int (r div l)) + (f + 1 / 2) :: rat)\<rceil> = int (r div l) + 2"
      using f1 by (intro ceiling_unique) simp_all
    with False show ?thesis by (simp add: q add.assoc)
  qed
qed

lemma count_list_concat_replicate:
  "count_list (concat (replicate n xs)) s = n * count_list xs s"
  by (induction n) (simp_all add: count_list_append)

text \<open>
  C4 (as stated). The number of copies is not \<open>ceil(read_length / len(pattern) + 0.5)\<close>:
  for reads of length 150 and a pattern of 8 bases the source computes
  \<open>round(18.75 + 0.5) = 19\<close> copies under either rounding of halves, and the ceiling is 20.
\<close>

theorem get_vntr_matcher_hmm_copies_counterexample:
  "snd (snd (snd (projr (get_vntr_matcher_hmm HalfAwayFromZero
      \<lparr>start_point = 100, vntr_length = 16, chromosome = ''chr1'', pattern = ''CAGCAGTT'',
       repeat_segments = [''CAGCAGTT'', ''CAGCAGTA''], left_flanking_region = ''AAAA'',
       right_flanking_region = ''TTTT''\<rparr> 150)))) = 19
   \<and> snd (snd (snd (projr (get_vntr_matcher_hmm HalfToEven
      \<lparr>start_point = 100, vntr_length = 16, chromosome = ''chr1'', pattern = ''CAGCAGTT'',
       repeat_segments = [''CAGCAGTT'', ''CAGCAGTA''], left_flanking_region = ''AAAA'',
       right_flanking_region = ''TTTT''\<rparr> 150)))) = 19
   \<and> \<lceil>(of_nat 150 / of_nat (length ''CAGCAGTT'') + 1 / 2 :: rat)\<rceil> = 20"
proof -
  have r: "py_round mode (of_nat 150 / of_nat 8 + 1 / 2) = 19" for mode
    using py_round_quotient_half [of 8 mode 150] by simp
  have c: "\<lceil>(of_nat 150 / of_nat 8 + 1 / 2 :: rat)\<rceil> = 20"
    using ceiling_quotient_half [of 8 150] by simp
  show ?thesis
    using r c by (simp add: get_vntr_matcher_hmm_def build_vntr_matcher_hmm_def Let_def)
qed

text \<open>
  C4 (amended). For every read length and non-empty pattern the number of copies is
  \<open>round(read_length / len(pattern) + 0.5)\<close>, the nearest integer, which is
  \<open>floor(read_length / len(pattern)) + 1\<close>; only where a half is rounded to the even
  neighbour, and \<open>len(pattern)\<close> divides \<open>read_length\<close> with an even quotient, it is
  that quotient. It agrees with \<open>ceil(read_length / len(pattern) + 0.5)\<close> exactly when
  the remainder of the division is at most half of \<open>len(pattern)\<close> (apart from that
  tie). The pattern list handed to the builder is the list of reference repeat segments
  repeated 100 times: every segment occurs 100 times as often as in the reference.
\<close>

theorem get_vntr_matcher_hmm_copies:
  assumes "pattern vntr \<noteq> []"
  shows "let l = length (pattern vntr);
             copies = (if mode = HalfToEven \<and> l dvd read_length \<and> even (read_length div l)
                       then int (read_length div l) else int (read_length div l) + 1)
         in get_vntr_matcher_hmm mode vntr read_length =
              Inr (slice_from_neg (left_flanking_region vntr) (int read_length - 10),
                   slice_to (right_flanking_region vntr) (int read_length - 10),
                   concat (replicate 100 (repeat_segments vntr)),
                   copies)
            \<and> copies = py_round mode (of_nat read_length / of_nat l + 1 / 2)
            \<and> ((copies = \<lceil>(of_nat read_length / of_nat l + 1 / 2 :: rat)\<rceil>) =
                 (2 * (read_length mod l) \<le> l
                  \<and> \<not> (mode = HalfToEven \<and> l dvd read_length \<and> even (read_length div l))))
            \<and> (\<forall>s. count_list (concat (replicate 100 (repeat_segments vntr))) s =
                     100 * count_list (repeat_segments vntr) s)"
proof -
  define l where "l = length (pattern vntr)"
  define copies where "copies = (if mode = HalfToEven \<and> l dvd read_length \<and> even (read_length div l)
                      then int (read_length div l) else int (read_length div l) + 1)"
  have l: "0 < l" using assms(1) by (simp add: l_def)
  have r: "py_round mode (of_nat read_length / of_nat l + 1 / 2) = copies"
    using py_round_quotient_half [OF l, of mode read_length] by (simp add: copies_def)
  have c: "\<lceil>(of_nat read_length / of_nat l + 1 / 2 :: rat)\<rceil> =
           (if 2 * (read_length mod l) \<le> l then int (read_length div l) + 1
            else int (read_length div l) + 2)"
    by (rule ceiling_quotient_half [OF l])
  have g: "get_vntr_matcher_hmm mode vntr read_length =
           Inr (slice_from_neg (left_flanking_region vntr) (int read_length - 10),
                slice_to (right_flanking_region vntr) (int read_length - 10),
                concat (replicate 100 (repeat_segments vntr)),
                copies)"
    using l r by (simp add: get_vntr_matcher_hmm_def build_vntr_matcher_hmm_def Let_def l_def)
  have e: "(copies = \<lceil>(of_nat read_length / of_nat l + 1 / 2 :: rat)\<rceil>) =
              (2 * (read_length mod l) \<le> l
               \<and> \<not> (mode = HalfToEven \<and> l dvd read_length \<and> even (read_length div l)))"
    unfolding c by (auto simp add: copies_def)
  from g r e show ?thesis
    unfolding Let_def l_def [symmetric] copies_def [symmetric]
    by (simp add: count_list_concat_replicate)
qed

theorem get_vntr_matcher_hmm_copies_witness:
  "pattern \<lparr>start_point = 100, vntr_length = 6, chromosome = ''chr1'', pattern = ''CAG'',
       repeat_segments = [''CAG'', ''CAA''], left_flanking_region = ''AAAAAAAAAA'',
       right_flanking_region = ''TTTTTTTTTT''\<rparr> \<noteq> []
   \<and> get_vntr_matcher_hmm HalfAwayFromZero
      \<lparr>start_point = 100, vntr_length = 6, chromosome = ''chr1'', pattern = ''CAG'',
       repeat_segments = [''CAG'', ''CAA''], left_flanking_region = ''AAAAAAAAAA'',
       right_flanking_region = ''TTTTTTTTTT''\<rparr> 16
     = Inr (''AAAAAA'', ''TTTTTT'', concat (replicate 100 [''CAG'', ''CAA'']), 6)"
  using get_vntr_matcher_hmm_copies [of
      "\<lparr>start_point = 100, vntr_length = 6, chromosome = ''chr1'', pattern = ''CAG'',
       repeat_segments = [''CAG'', ''CAA''], left_flanking_region = ''AAAAAAAAAA'',
       right_flanking_region = ''TTTTTTTTTT''\<rparr>" HalfAwayFromZero 16]
  by (simp add: slice_from_neg_def slice_to_def)


lemma scan_state_fold:
  "fold (scan_state names) [0..<k] state_scan_init =
     \<lparr>first_repeat_matches = filter (\<lambda>i. first_repeat_match (names ! i)) [0..<k],
      repeat_match_states = filter (\<lambda>i. repeat_match (names ! i)) [0..<k],
      suffix_start = (if filter (\<lambda>i. names ! i = ''suffix_start_suffix'') [0..<k] = [] then None
                      else Some (last (filter (\<lambda>i. names ! i = ''suffix_start_suffix'') [0..<k])))\<rparr>"
proof (induction k)
  case 0
  then show ?case by (simp add: state_scan_init_def)
next
  case (Suc k)
  have "fold (scan_state names) [0..<Suc k] state_scan_init =
          scan_state names k (fold (scan_state names) [0..<k] state_scan_init)"
    by simp
  also have "\<dots> = scan_state names k
     \<lparr>first_repeat_matches = filter (\<lambda>i. first_repeat_match (names ! i)) [0..<k],
      repeat_match_states = filter (\<lambda>i. repeat_match (names ! i)) [0..<k],
      suffix_start = (if filter (\<lambda>i. names ! i = ''suffix_start_suffix'') [0..<k] = [] then None
                      else Some (last (filter (\<lambda>i. names ! i = ''suffix_start_suffix'') [0..<k])))\<rparr>"
    by (simp only: Suc.IH)
  also have "\<dots> =
     \<lparr>first_repeat_matches = filter (\<lambda>i. first_repeat_match (names ! i)) [0..<Suc k],
      repeat_match_states = filter (\<lambda>i. repeat_match (names ! i)) [0..<Suc k],
      suffix_start = (if filter (\<lambda>i. names ! i = ''suffix_start_suffix'') [0..<Suc k] = [] then None
                      else Some (last (filter (\<lambda>i. names ! i = ''suffix_start_suffix'') [0..<Suc k])))\<rparr>"
    by (simp add: scan_state_def Let_def)
  finally show ?case .
qed

lemma filter_eq_index:
  "filter (\<lambda>i. i = j) [0..<n] = (if j < n then [j] else [])"
  by (induction n) auto

lemma distinct_names_index:
  assumes "distinct names" "j < length names" "names ! j = x"
  shows "filter (\<lambda>i. names ! i = x) [0..<length names] = [j]"
proof -
  have "filter (\<lambda>i. names ! i = x) [0..<length names] = filter (\<lambda>i. i = j) [0..<length names]"
    using assms by (intro filter_cong) (auto simp add: nth_eq_iff_index_eq)
  then show ?thesis using assms(2) by (simp add: filter_eq_index)
qed

lemma fold_update_same_length:
  "length (fold (\<lambda>f r. r[f := v]) fs row) = length row"
  by (induction fs arbitrary: row) simp_all

lemma fold_update_same_nth:
  "j < length row \<Longrightarrow>
   fold (\<lambda>f r. r[f := v]) fs row ! j = (if j \<in> set fs then v else row ! j)"
proof (induction fs arbitrary: row)
  case Nil
  then show ?case by simp
next
  case (Cons f fs)
  then have "j < length (row[f := v])" by simp
  from Cons.IH [OF this] show ?case
    using Cons.prems by (auto simp add: nth_list_update)
qed

lemma set_start_row_length:
  "length (set_start_row ss frm row) = length row"
  by (cases ss) (simp_all add: set_start_row_def fold_update_same_length)

lemma set_start_row_nth:
  assumes "j < length row"
  shows "set_start_row (Some ss) frm row ! j =
           (if j \<in> set frm then (7 / 10) / of_nat (length frm)
            else if j = ss then 3 / 10 else row ! j)"
  using assms by (simp add: set_start_row_def fold_update_same_nth nth_list_update)

lemma fold_rows_length:
  "length (fold (\<lambda>ms m. m[ms := g (m ! ms)]) rms m) = length m"
  by (induction rms arbitrary: m) simp_all

lemma fold_rows_other:
  "i \<notin> set rms \<Longrightarrow> fold (\<lambda>ms m. m[ms := g (m ! ms)]) rms m ! i = m ! i"
  by (induction rms arbitrary: m) (auto simp add: nth_list_update)

lemma fold_rows_member:
  "i \<in> set rms \<Longrightarrow> distinct rms \<Longrightarrow> i < length m \<Longrightarrow>
   fold (\<lambda>ms m. m[ms := g (m ! ms)]) rms m ! i = g (m ! i)"
proof (induction rms arbitrary: m)
  case Nil
  then show ?case by simp
next
  case (Cons r rms)
  show ?case
  proof (cases "i = r")
    case True
    with Cons.prems have "i \<notin> set rms" by simp
    then show ?thesis using True Cons.prems by (simp add: fold_rows_other)
  next
    case False
    with Cons.prems have "i \<in> set rms" "distinct rms" "i < length (m[r := g (m ! r)])" by simp_all
    from Cons.IH [OF this] False show ?thesis by simp
  qed
qed

lemma length_filter_index:
  "length (filter (\<lambda>i. P (names ! i)) [0..<length names]) = length (filter P names)"
proof -
  have "filter P names = filter P (map (\<lambda>i. names ! i) [0..<length names])"
    by (simp add: map_nth)
  also have "\<dots> = map (\<lambda>i. names ! i) (filter (\<lambda>i. P (names ! i)) [0..<length names])"
    by (simp add: filter_map comp_def)
  finally show ?thesis by simp
qed

lemma suffix_start_not_match:
  "\<not> first_repeat_match ''suffix_start_suffix''"
  by (simp add: first_repeat_match_def)

lemma get_read_matcher_model_unfold:
  assumes "[] \<notin> set names" "distinct names" "ss < length names"
    "names ! ss = ''suffix_start_suffix''"
  shows "get_read_matcher_model names start_index end_index mat0 =
     Inr \<lparr>trans_mat =
            fold (\<lambda>match_state m.
                    m[match_state := renormalize_row end_index
                        (length (filter (\<lambda>i. repeat_match (names ! i)) [0..<length names]))
                        (m ! match_state)])
              (filter (\<lambda>i. repeat_match (names ! i)) [0..<length names])
              (mat0[start_index :=
                 set_start_row (Some ss)
                   (filter (\<lambda>i. first_repeat_match (names ! i)) [0..<length names])
                   (mat0 ! start_index)]),
          starts_vec = (replicate (length names) 0)[start_index := 1],
          ends_vec = (replicate (length names) 0)[end_index := 1],
          state_names = names\<rparr>"
  using assms(1) distinct_names_index [OF assms(2,3,4)]
  by (simp add: get_read_matcher_model_def scan_state_fold Let_def)

lemma start_row_entries:
  assumes "[] \<notin> set names" "distinct names" "length mat0 = length names"
    "start_index < length names" "length (mat0 ! start_index) = length names"
    "\<not> repeat_match (names ! start_index)" "ss < length names"
    "names ! ss = ''suffix_start_suffix''" "j < length names"
  shows "trans_mat (projr (get_read_matcher_model names start_index end_index mat0))
            ! start_index ! j =
        (if first_repeat_match (names ! j)
         then (7 / 10) / of_nat (length (filter first_repeat_match names))
         else if names ! j = ''suffix_start_suffix'' then 3 / 10
         else mat0 ! start_index ! j)"
proof -
  have notin: "start_index \<notin> set (filter (\<lambda>i. repeat_match (names ! i)) [0..<length names])"
    using assms(6) by simp
  have jss: "(names ! j = ''suffix_start_suffix'') = (j = ss)"
    using assms(7,8,9) nth_eq_iff_index_eq [OF assms(2), of j ss] by auto
  have jm: "(j \<in> set (filter (\<lambda>i. first_repeat_match (names ! i)) [0..<length names]))
              = first_repeat_match (names ! j)"
    using assms(9) by simp
  show ?thesis
    unfolding get_read_matcher_model_unfold [OF assms(1,2,7,8)]
    using assms(3,4,5,9)
    by (simp add: fold_rows_other [OF notin] set_start_row_nth jm jss length_filter_index)
qed

lemma get_read_matcher_model_returns:
  assumes "[] \<notin> set names"
  shows "get_read_matcher_model names start_index end_index mat0 =
           Inr (projr (get_read_matcher_model names start_index end_index mat0))"
  using assms by (simp add: get_read_matcher_model_def Let_def)

text \<open>
  C1 (as stated). In the example model with three copies of a two-column repeat, the
  edited row of the start state gives 0.35 to both match states of copy 0, \<open>M1_0\<close> and
  \<open>M2_0\<close> (positions 5 and 6), and nothing to the first-column match states \<open>M1_1\<close> and
  \<open>M1_2\<close> of the other copies (positions 9 and 13); the specification asks for \<open>0.7 / 3\<close> at
  positions 5, 9 and 13 and for nothing at position 6.
\<close>

theorem get_read_matcher_model_start_row_counterexample:
  "trans_mat (projr (get_read_matcher_model example_names 0 19 example_mat)) ! 0 =
     [0, 3 / 10, 0, 0, 0, 7 / 20, 7 / 20, 0, 0, 0, 0, 0, 0, 0, 0, 0, 0, 0, 0, 0]
   \<and> example_names ! 5 = ''M1_0'' \<and> example_names ! 6 = ''M2_0''
   \<and> example_names ! 9 = ''M1_1'' \<and> example_names ! 13 = ''M1_2''"
  by code_simp

text \<open>
  C1 (amended). For every list of state names, hence for every number of repeat copies,
  the edited row of the global start state has probability 0.3 at \<open>suffix_start_suffix\<close>
  and probability \<open>0.7 / n\<close> at every match state of repeat copy 0 (the match states whose
  name ends in \<open>_0\<close>, one per column of the repeat), \<open>n\<close> being the number of these
  states; every other entry of the row, the match states of the other copies among them,
  is left as it was before the edit.
\<close>

theorem get_read_matcher_model_start_row:
  assumes "[] \<notin> set names" "distinct names" "length mat0 = length names"
    "start_index < length names" "length (mat0 ! start_index) = length names"
    "\<not> repeat_match (names ! start_index)" "''suffix_start_suffix'' \<in> set names"
  shows "\<exists>m. get_read_matcher_model names start_index end_index mat0 = Inr m \<and>
     (\<forall>j < length names. trans_mat m ! start_index ! j =
        (if first_repeat_match (names ! j)
         then (7 / 10) / of_nat (length (filter first_repeat_match names))
         else if names ! j = ''suffix_start_suffix'' then 3 / 10
         else mat0 ! start_index ! j))"
proof -
  from assms(7) obtain ss where ss: "ss < length names" "names ! ss = ''suffix_start_suffix''"
    by (auto simp add: in_set_conv_nth)
  show ?thesis
    using get_read_matcher_model_returns [OF assms(1), of start_index end_index mat0]
          start_row_entries [OF assms(1-6) ss, of _ end_index]
    by blast
qed

theorem get_read_matcher_model_start_row_witness:
  "\<exists>m. get_read_matcher_model example_names 0 19 example_mat = Inr m \<and>
     trans_mat m ! 0 ! 1 = 3 / 10 \<and> trans_mat m ! 0 ! 5 = 7 / 20 \<and>
     trans_mat m ! 0 ! 6 = 7 / 20 \<and> trans_mat m ! 0 ! 9 = 0"
proof -
  have h: "[] \<notin> set example_names" "distinct example_names"
    "length example_mat = length example_names" "0 < length example_names"
    "length (example_mat ! 0) = length example_names"
    "\<not> repeat_match (example_names ! 0)" "''suffix_start_suffix'' \<in> set example_names"
    by code_simp+
  have n: "length example_names = 20" "length (filter first_repeat_match example_names) = 2"
    "first_repeat_match (example_names ! 5)" "first_repeat_match (example_names ! 6)"
    "\<not> first_repeat_match (example_names ! 1)" "\<not> first_repeat_match (example_names ! 9)"
    "example_names ! 1 = ''suffix_start_suffix''" "example_names ! 9 \<noteq> ''suffix_start_suffix''"
    "example_mat ! 0 ! 9 = 0"
    by code_simp+
  from get_read_matcher_model_start_row [OF h, of 19] obtain m where
    m: "get_read_matcher_model example_names 0 19 example_mat = Inr m"
    and r: "\<forall>j < length example_names. trans_mat m ! 0 ! j =
        (if first_repeat_match (example_names ! j)
         then (7 / 10) / of_nat (length (filter first_repeat_match example_names))
         else if example_names ! j = ''suffix_start_suffix'' then 3 / 10
         else example_mat ! 0 ! j)"
    by blast
  have "trans_mat m ! 0 ! 1 = 3 / 10" "trans_mat m ! 0 ! 5 = 7 / 20"
    "trans_mat m ! 0 ! 6 = 7 / 20" "trans_mat m ! 0 ! 9 = 0"
    using r n by simp_all
  with m show ?thesis by blast
qed


lemma sum_list_update_rat:
  "i < length xs \<Longrightarrow> sum_list (xs[i := v]) = sum_list xs - xs ! i + (v::rat)"
proof (induction xs arbitrary: i)
  case Nil
  then show ?case by simp
next
  case (Cons x xs)
  then show ?case by (cases i) simp_all
qed

lemma sum_list_scaled:
  "sum_list (map (\<lambda>x. if x \<noteq> 0 then x / t else x) xs) = sum_list xs / (t::rat)"
  by (induction xs) (simp_all add: add_divide_distrib)

lemma renormalize_row_length:
  "length (renormalize_row end_index n row) = length row"
  by (simp add: renormalize_row_def Let_def)

lemma renormalize_row_sum:
  assumes "end_index < length row" "row ! end_index = 0" "sum_list row = 1"
  shows "sum_list (renormalize_row end_index n row) = 1"
proof -
  define to_end :: rat where "to_end = (7 / 10) / of_nat n"
  have pos: "0 < 1 + to_end" unfolding to_end_def
    by (rule add_pos_nonneg) simp_all
  have r: "renormalize_row end_index n row =
          (map (\<lambda>x. if x \<noteq> 0 then x / (1 + to_end) else x) row)
            [end_index := to_end / (1 + to_end)]"
    unfolding renormalize_row_def Let_def to_end_def by (rule refl)
  have z: "(map (\<lambda>x. if x \<noteq> 0 then x / (1 + to_end) else x) row) ! end_index = 0"
    using assms(1,2) by simp
  have "sum_list (renormalize_row end_index n row) =
          sum_list row / (1 + to_end) - 0 + to_end / (1 + to_end)"
    unfolding r using assms(1)
    by (simp only: sum_list_update_rat length_map z sum_list_scaled)
  also have "\<dots> = (1 + to_end) / (1 + to_end)"
    by (simp only: assms(3) add_divide_distrib diff_zero)
  also have "\<dots> = 1" using pos by simp
  finally show ?thesis .
qed

lemma start_row_sum:
  assumes "length row = n" "ss < n" "distinct frm" "set frm \<subseteq> {0..<n}" "frm \<noteq> []"
    "ss \<notin> set frm" "\<forall>j<n. j \<noteq> ss \<longrightarrow> j \<notin> set frm \<longrightarrow> row ! j = 0"
  shows "sum_list (set_start_row (Some ss) frm row) = 1"
proof -
  define v :: rat where "v = (7 / 10) / of_nat (length frm)"
  have len: "length (set_start_row (Some ss) frm row) = n"
    by (simp add: set_start_row_length assms(1))
  have "sum_list (set_start_row (Some ss) frm row) =
          (\<Sum>j = 0..<n. set_start_row (Some ss) frm row ! j)"
    by (simp add: sum_list_sum_nth len)
  also have "\<dots> = (\<Sum>j = 0..<n. if j \<in> set frm then v else if j = ss then 3 / 10 else 0)"
    using assms(1,7) by (intro sum.cong) (auto simp add: set_start_row_nth v_def)
  also have "\<dots> = (\<Sum>j \<in> {0..<n} \<inter> {j. j \<in> set frm}. v)
                   + (\<Sum>j \<in> {0..<n} \<inter> - {j. j \<in> set frm}. if j = ss then 3 / 10 else 0)"
    by (simp add: sum.If_cases)
  also have "{0..<n} \<inter> {j. j \<in> set frm} = set frm" using assms(4) by auto
  also have "(\<Sum>j \<in> {0..<n} \<inter> - {j. j \<in> set frm}. if j = ss then 3 / 10 else 0) = (3 / 10 :: rat)"
    using assms(2,6) by (simp add: sum.delta)
  also have "(\<Sum>j \<in> set frm. v) = of_nat (length frm) * v"
    by (simp add: distinct_card [OF assms(3)])
  also have "of_nat (length frm) * v = 7 / 10"
    using assms(5) by (simp add: v_def)
  finally show ?thesis by simp
qed

lemma unit_vector_sum:
  "s < n \<Longrightarrow> sum_list ((replicate n (0::rat))[s := 1]) = 1"
  by (simp add: sum_list_update_rat sum_list_replicate)

lemma edited_rows_sum:
  assumes ne: "[] \<notin> set names" and dist: "distinct names"
    and len: "length mat0 = length names"
    and rows: "\<forall>i < length names. length (mat0 ! i) = length names"
    and st: "start_index < length names" and en: "end_index < length names"
    and neq: "start_index \<noteq> end_index"
    and stm: "\<not> repeat_match (names ! start_index)"
    and enm: "\<not> repeat_match (names ! end_index)"
    and ss: "ss < length names" "names ! ss = ''suffix_start_suffix''"
    and frm: "\<exists>name \<in> set names. first_repeat_match name"
    and stoch: "\<forall>i < length names. i \<noteq> end_index \<longrightarrow> sum_list (mat0 ! i) = 1"
    and sink: "sum_list (mat0 ! end_index) = 0"
    and single: "\<forall>j < length names. names ! j \<noteq> ''suffix_start_suffix'' \<longrightarrow>
                   mat0 ! start_index ! j = 0"
    and noend: "\<forall>i < length names. repeat_match (names ! i) \<longrightarrow> mat0 ! i ! end_index = 0"
    and i: "i < length names"
  shows "sum_list (trans_mat (projr (get_read_matcher_model names start_index end_index mat0)) ! i)
           + ends_vec (projr (get_read_matcher_model names start_index end_index mat0)) ! i = 1"
proof -
  define n where "n = length names"
  define F where "F = filter (\<lambda>i. first_repeat_match (names ! i)) [0..<length names]"
  define R where "R = filter (\<lambda>i. repeat_match (names ! i)) [0..<length names]"
  define row0 where "row0 = set_start_row (Some ss) F (mat0 ! start_index)"
  define mat1 where "mat1 = mat0[start_index := row0]"
  define mat2 where "mat2 = fold (\<lambda>match_state m.
                    m[match_state := renormalize_row end_index (length R) (m ! match_state)])
              R mat1"
  define E where "E = (replicate (length names) (0::rat))[end_index := 1]"
  have m: "projr (get_read_matcher_model names start_index end_index mat0) =
     \<lparr>trans_mat = mat2,
      starts_vec = (replicate (length names) 0)[start_index := 1],
      ends_vec = E,
      state_names = names\<rparr>"
    unfolding get_read_matcher_model_unfold [OF ne dist ss] mat2_def mat1_def row0_def R_def F_def
      E_def
    by simp
  have ev: "E ! i = (if i = end_index then 1 else 0)"
    using i en by (simp add: E_def nth_list_update)
  have Rmem: "(i \<in> set R) = repeat_match (names ! i)" using i by (simp add: R_def)
  have Rdist: "distinct R" by (simp add: R_def)
  have l1: "length mat1 = length names" by (simp add: mat1_def len)
  have ssF: "ss \<notin> set F" using ss by (simp add: F_def suffix_start_not_match)
  have Fne: "F \<noteq> []"
  proof -
    from frm obtain k where "k < length names" "first_repeat_match (names ! k)"
      by (auto simp add: in_set_conv_nth)
    then have "k \<in> set F" by (simp add: F_def)
    then show ?thesis by auto
  qed
  have zero: "\<forall>j<length names. j \<noteq> ss \<longrightarrow> j \<notin> set F \<longrightarrow> mat0 ! start_index ! j = 0"
  proof (intro allI impI)
    fix j assume j: "j < length names" "j \<noteq> ss"
    then have "names ! j \<noteq> ''suffix_start_suffix''"
      using nth_eq_iff_index_eq [OF dist j(1) ss(1)] ss(2) by simp
    with single j(1) show "mat0 ! start_index ! j = 0" by simp
  qed
  have row0sum: "sum_list row0 = 1"
    unfolding row0_def
    using rows st ss(1) ssF Fne zero
    by (intro start_row_sum [where n = "length names"]) (auto simp add: F_def)
  show ?thesis
  proof (cases "i \<in> set R")
    case True
    then have rm: "repeat_match (names ! i)" using Rmem by simp
    with stm enm have ine: "i \<noteq> start_index" "i \<noteq> end_index" by auto
    have "mat2 ! i = renormalize_row end_index (length R) (mat1 ! i)"
      unfolding mat2_def using True Rdist i l1 by (simp add: fold_rows_member)
    also have "mat1 ! i = mat0 ! i" using ine by (simp add: mat1_def)
    finally have s: "sum_list (mat2 ! i) = 1"
      using rows i en noend rm stoch ine by (simp add: renormalize_row_sum)
    have e0: "E ! i = 0" using ev ine by simp
    show ?thesis unfolding m using s e0 by simp
  next
    case False
    then have u: "mat2 ! i = mat1 ! i" unfolding mat2_def by (simp add: fold_rows_other)
    show ?thesis
    proof (cases "i = start_index")
      case True
      then have "mat1 ! i = row0" using st len by (simp add: mat1_def)
      with u row0sum have s: "sum_list (mat2 ! i) = 1" by simp
      have e0: "E ! i = 0" using ev True neq by simp
      show ?thesis unfolding m using s e0 by simp
    next
      case False
      then have r: "mat2 ! i = mat0 ! i" using u by (simp add: mat1_def)
      show ?thesis
      proof (cases "i = end_index")
        case True
        then have "E ! i = 1" "sum_list (mat2 ! i) = 0" using ev r sink by simp_all
        then show ?thesis unfolding m by simp
      next
        case False
        then have "E ! i = 0" "sum_list (mat2 ! i) = 1" using ev r stoch i by simp_all
        then show ?thesis unfolding m by simp
      qed
    qed
  qed
qed

text \<open>
  C2. Every row of the matrix that \<open>get_read_matcher_model\<close> hands to the final model
  is normalised: for every state the probabilities of its outgoing transitions (its row
  of the edited matrix, and its entry in the vector of transitions into the new model's
  end) sum to 1, which lies within \<open>1e-9\<close> of 1. This covers the global start after the
  internal-entry edit and every repeat match state after the early-termination edit and
  its renormalisation; the new model's own start has the single transition of
  probability 1 into the old start. The concatenated model the library delivers is
  assumed well formed: distinct non-empty names, a square matrix whose rows sum to 1
  except for the row of the end state, which has no transition; the start and end states differ, the start state has its
  single transition to \<open>suffix_start_suffix\<close>, no repeat match state has a transition
  to the end, and the repeat has at least one copy.
\<close>

theorem get_read_matcher_model_rows_normalized:
  assumes "[] \<notin> set names" and "distinct names"
    and "length mat0 = length names"
    and "\<forall>i < length names. length (mat0 ! i) = length names"
    and "start_index < length names" and "end_index < length names"
    and "start_index \<noteq> end_index"
    and "\<not> repeat_match (names ! start_index)"
    and "\<not> repeat_match (names ! end_index)"
    and "''suffix_start_suffix'' \<in> set names"
    and "\<exists>name \<in> set names. first_repeat_match name"
    and "\<forall>i < length names. i \<noteq> end_index \<longrightarrow> sum_list (mat0 ! i) = 1"
    and "sum_list (mat0 ! end_index) = 0"
    and "\<forall>j < length names. names ! j \<noteq> ''suffix_start_suffix'' \<longrightarrow>
                   mat0 ! start_index ! j = 0"
    and "\<forall>i < length names. repeat_match (names ! i) \<longrightarrow> mat0 ! i ! end_index = 0"
  shows "\<exists>m. get_read_matcher_model names start_index end_index mat0 = Inr m
           \<and> (\<forall>i < length names.
                 \<bar>sum_list (trans_mat m ! i) + ends_vec m ! i - 1\<bar> \<le> 1 / 10 ^ 9)
           \<and> \<bar>sum_list (starts_vec m) - 1\<bar> \<le> 1 / 10 ^ 9"
proof -
  from assms(10) obtain ss where ss: "ss < length names" "names ! ss = ''suffix_start_suffix''"
    by (auto simp add: in_set_conv_nth)
  define m where "m = projr (get_read_matcher_model names start_index end_index mat0)"
  have r: "get_read_matcher_model names start_index end_index mat0 = Inr m"
    unfolding m_def by (rule get_read_matcher_model_returns [OF assms(1)])
  have rows: "sum_list (trans_mat m ! i) + ends_vec m ! i = 1" if "i < length names" for i
    unfolding m_def
    by (rule edited_rows_sum [OF assms(1-9) ss assms(11-15) that])
  have "starts_vec m = (replicate (length names) 0)[start_index := 1]"
    unfolding m_def get_read_matcher_model_unfold [OF assms(1,2) ss] by simp
  then have s: "sum_list (starts_vec m) = 1" using assms(5) by (simp add: unit_vector_sum)
  from r rows s show ?thesis by simp
qed

theorem get_read_matcher_model_rows_normalized_witness:
  "\<exists>m. get_read_matcher_model example_names 0 19 example_mat = Inr m
     \<and> (\<forall>i < 20. \<bar>sum_list (trans_mat m ! i) + ends_vec m ! i - 1\<bar> \<le> 1 / 10 ^ 9)
     \<and> trans_mat m ! 5 ! 6 = 60 / 67 \<and> trans_mat m ! 5 ! 19 = 7 / 67"
proof -
  have h: "[] \<notin> set example_names" "distinct example_names"
    "length example_mat = length example_names"
    "\<forall>i < length example_names. length (example_mat ! i) = length example_names"
    "0 < length example_names" "19 < length example_names" "(0::nat) \<noteq> 19"
    "\<not> repeat_match (example_names ! 0)" "\<not> repeat_match (example_names ! 19)"
    "''suffix_start_suffix'' \<in> set example_names"
    "\<exists>name \<in> set example_names. first_repeat_match name"
    "\<forall>i < length example_names. i \<noteq> 19 \<longrightarrow> sum_list (example_mat ! i) = 1"
    "sum_list (example_mat ! 19) = 0"
    "\<forall>j < length example_names. example_names ! j \<noteq> ''suffix_start_suffix'' \<longrightarrow>
        example_mat ! 0 ! j = 0"
    "\<forall>i < length example_names. repeat_match (example_names ! i) \<longrightarrow> example_mat ! i ! 19 = 0"
    by code_simp+
  have n: "length example_names = 20" by code_simp
  have e: "trans_mat (projr (get_read_matcher_model example_names 0 19 example_mat)) ! 5 ! 6 = 60 / 67"
    "trans_mat (projr (get_read_matcher_model example_names 0 19 example_mat)) ! 5 ! 19 = 7 / 67"
    by code_simp+
  from get_read_matcher_model_rows_normalized [OF h] obtain m where
    "get_read_matcher_model example_names 0 19 example_mat = Inr m"
    "\<forall>i < length example_names. \<bar>sum_list (trans_mat m ! i) + ends_vec m ! i - 1\<bar> \<le> 1 / 10 ^ 9"
    by blast
  then show ?thesis using e n by auto
qed


lemma prefix_update_result:
  assumes "prefix_update verbose sequence right_flank h v s = Inr s1"
  shows "s1 = s\<lparr>right_flanking_matches := right_flanking_matches s +
                   (if is_match_state v \<and>
                       py_eq_at sequence (int (seq_index s)) right_flank (h - 1) = Inr True
                    then 1 else 0),
                right_flanking_basepairs := right_flanking_basepairs s +
                   (if is_emitting_state v then 1 else 0)\<rparr>"
  using assms by (auto simp add: prefix_update_def split: sum.splits if_splits)

lemma suffix_update_result:
  assumes "suffix_update verbose sequence left_flank mx h v s = Inr s1"
  shows "s1 = s\<lparr>left_flanking_matches := left_flanking_matches s +
                   (if is_match_state v \<and>
                       py_eq_at sequence (int (seq_index s)) left_flank (- (mx - h + 1)) = Inr True
                    then 1 else 0),
                left_flanking_basepairs := left_flanking_basepairs s +
                   (if is_emitting_state v then 1 else 0)\<rparr>"
  using assms by (auto simp add: suffix_update_def split: sum.splits if_splits)

lemma flank_step_result:
  assumes "flank_step verbose sequence left_flank right_flank mx v s = Inr s'"
  shows "s' = \<lparr>right_flanking_matches = right_flanking_matches s +
                  (if flank_hit ''prefix'' sequence right_flank (\<lambda>c. c - 1) v (seq_index s)
                   then 1 else 0),
               right_flanking_basepairs = right_flanking_basepairs s +
                  (if flank_emitted ''prefix'' v then 1 else 0),
               left_flanking_matches = left_flanking_matches s +
                  (if flank_hit ''suffix'' sequence left_flank (\<lambda>c. - (mx - c + 1)) v (seq_index s)
                   then 1 else 0),
               left_flanking_basepairs = left_flanking_basepairs s +
                  (if flank_emitted ''suffix'' v then 1 else 0),
               seq_index = seq_index s + (if scanned v \<and> is_emitting_state v then 1 else 0)\<rparr>"
proof (cases "scanned v")
  case False
  with assms have "s' = s" by (auto simp add: flank_step_def scanned_def)
  with False show ?thesis by (simp add: flank_hit_def flank_emitted_def)
next
  case True
  then have sc: "\<not> (contains v ''start'' \<or> contains v ''end'')" by (simp add: scanned_def)
  from assms sc obtain h where h: "py_int (column_field v) = Inr h"
    by (auto simp add: flank_step_def split: sum.splits)
  from assms sc h obtain s1 where
    s1: "(if endswith v ''prefix'' then prefix_update verbose sequence right_flank h v s
          else Inr s) = Inr s1"
    by (auto simp add: flank_step_def split: sum.splits)
  from assms sc h s1 obtain s2 where
    s2: "(if endswith v ''suffix'' then suffix_update verbose sequence left_flank mx h v s1
          else Inr s1) = Inr s2"
    and s': "s' = (if is_emitting_state v then s2\<lparr>seq_index := seq_index s2 + 1\<rparr> else s2)"
    by (auto simp add: flank_step_def split: sum.splits)
  have e1: "s1 = s\<lparr>right_flanking_matches := right_flanking_matches s +
                   (if flank_hit ''prefix'' sequence right_flank (\<lambda>c. c - 1) v (seq_index s)
                    then 1 else 0),
                right_flanking_basepairs := right_flanking_basepairs s +
                   (if flank_emitted ''prefix'' v then 1 else 0)\<rparr>"
  proof (cases "endswith v ''prefix''")
    case True
    with s1 have "prefix_update verbose sequence right_flank h v s = Inr s1" by simp
    from prefix_update_result [OF this] True \<open>scanned v\<close> h show ?thesis
      by (simp add: flank_hit_def flank_emitted_def)
  next
    case False
    with s1 show ?thesis by (simp add: flank_hit_def flank_emitted_def)
  qed
  have i1: "seq_index s1 = seq_index s" by (simp add: e1)
  have e2: "s2 = s1\<lparr>left_flanking_matches := left_flanking_matches s1 +
                   (if flank_hit ''suffix'' sequence left_flank (\<lambda>c. - (mx - c + 1)) v (seq_index s)
                    then 1 else 0),
                left_flanking_basepairs := left_flanking_basepairs s1 +
                   (if flank_emitted ''suffix'' v then 1 else 0)\<rparr>"
  proof (cases "endswith v ''suffix''")
    case True
    with s2 have "suffix_update verbose sequence left_flank mx h v s1 = Inr s2" by simp
    from suffix_update_result [OF this] True \<open>scanned v\<close> h i1 show ?thesis
      by (simp add: flank_hit_def flank_emitted_def)
  next
    case False
    with s2 show ?thesis by (simp add: flank_hit_def flank_emitted_def)
  qed
  show ?thesis
    unfolding s' e2 e1 using True by simp
qed

lemma count_from_Nil: "count_from P xs [] = 0"
  by (simp add: count_from_def)

lemma count_from_Cons:
  "count_from P xs (v # ys) =
     (if P v (emitted_count xs) then 1 else 0) + count_from P (xs @ [v]) ys"
proof -
  have u: "[length xs..<length xs + length (v # ys)] =
             length xs # [length (xs @ [v])..<length (xs @ [v]) + length ys]"
  proof -
    have "length xs < length xs + length (v # ys)" by simp
    from upt_conv_Cons [OF this] show ?thesis by simp
  qed
  have a: "xs @ v # ys = (xs @ [v]) @ ys" by simp
  have h: "(xs @ v # ys) ! length xs = v" by simp
  have e: "emitted_before (xs @ v # ys) (length xs) = emitted_count xs"
    by (simp add: emitted_before_def emitted_count_def)
  show ?thesis
    unfolding count_from_def u filter.simps h e
    unfolding a by simp
qed

lemma emitted_count_snoc:
  "emitted_count (xs @ [v]) =
     emitted_count xs + (if scanned v \<and> is_emitting_state v then 1 else 0)"
  by (simp add: emitted_count_def)

lemma count_from_all: "count_from P [] vs = count_positions P vs"
  by (simp add: count_from_def count_positions_def)

lemma flank_loop_counts:
  assumes "flank_loop verbose sequence left_flank right_flank mx ys s = Inr s'"
    and "seq_index s = emitted_count xs"
  shows "right_flanking_matches s' = right_flanking_matches s +
           count_from (flank_hit ''prefix'' sequence right_flank (\<lambda>c. c - 1)) xs ys
       \<and> right_flanking_basepairs s' = right_flanking_basepairs s +
           count_from (\<lambda>v pos. flank_emitted ''prefix'' v) xs ys
       \<and> left_flanking_matches s' = left_flanking_matches s +
           count_from (flank_hit ''suffix'' sequence left_flank (\<lambda>c. - (mx - c + 1))) xs ys
       \<and> left_flanking_basepairs s' = left_flanking_basepairs s +
           count_from (\<lambda>v pos. flank_emitted ''suffix'' v) xs ys"
  using assms
proof (induction ys arbitrary: xs s)
  case Nil
  then show ?case by (simp add: count_from_Nil)
next
  case (Cons v ys)
  from Cons.prems(1) obtain s1 where
    st: "flank_step verbose sequence left_flank right_flank mx v s = Inr s1"
    and lp: "flank_loop verbose sequence left_flank right_flank mx ys s1 = Inr s'"
    by (auto split: sum.splits)
  note r = flank_step_result [OF st]
  have i: "seq_index s1 = emitted_count (xs @ [v])"
    by (simp add: r Cons.prems(2) emitted_count_snoc)
  note IH = Cons.IH [OF lp i]
  have f: "right_flanking_matches s1 = right_flanking_matches s +
            (if flank_hit ''prefix'' sequence right_flank (\<lambda>c. c - 1) v (emitted_count xs)
             then 1 else 0)"
    "right_flanking_basepairs s1 = right_flanking_basepairs s +
            (if flank_emitted ''prefix'' v then 1 else 0)"
    "left_flanking_matches s1 = left_flanking_matches s +
            (if flank_hit ''suffix'' sequence left_flank (\<lambda>c. - (mx - c + 1)) v (emitted_count xs)
             then 1 else 0)"
    "left_flanking_basepairs s1 = left_flanking_basepairs s +
            (if flank_emitted ''suffix'' v then 1 else 0)"
    by (simp_all add: r Cons.prems(2))
  show ?case
    unfolding count_from_Cons using IH f by simp
qed

lemma visited_states_of_interior:
  "visited_states_of (first # interior @ [final]) = interior"
  by (simp add: visited_states_of_def butlast_append)

lemma startswith_iff: "startswith s p = (\<exists>r. s = p @ r)"
proof
  assume "startswith s p"
  then have "s = p @ drop (length p) s"
    by (metis startswith_def append_take_drop_id)
  then show "\<exists>r. s = p @ r" ..
next
  assume "\<exists>r. s = p @ r"
  then show "startswith s p" by (auto simp add: startswith_def)
qed

lemma endswith_iff: "endswith s p = (\<exists>r. s = r @ p)"
proof
  assume "endswith s p"
  then have "s = take (length s - length p) s @ p"
    by (metis endswith_def append_take_drop_id)
  then show "\<exists>r. s = r @ p" ..
next
  assume "\<exists>r. s = r @ p"
  then show "endswith s p" by (auto simp add: endswith_def)
qed

lemma contains_iff: "contains s p = (\<exists>a b. s = a @ p @ b)"
proof (induction s)
  case Nil
  then show ?case by auto
next
  case (Cons c cs)
  show ?case
  proof
    assume "contains (c # cs) p"
    then consider "startswith (c # cs) p" | "contains cs p" by auto
    then show "\<exists>a b. c # cs = a @ p @ b"
    proof cases
      case 1
      then obtain r where "c # cs = p @ r" by (auto simp add: startswith_iff)
      then have "c # cs = [] @ p @ r" by simp
      then show ?thesis by blast
    next
      case 2
      with Cons obtain a b where "cs = a @ p @ b" by auto
      then have "c # cs = (c # a) @ p @ b" by simp
      then show ?thesis by blast
    qed
  next
    assume "\<exists>a b. c # cs = a @ p @ b"
    then obtain a b where ab: "c # cs = a @ p @ b" by auto
    show "contains (c # cs) p"
    proof (cases a)
      case Nil
      with ab have "startswith (c # cs) p" by (auto simp add: startswith_iff)
      then show ?thesis by simp
    next
      case (Cons x a')
      with ab have "cs = a' @ p @ b" by simp
      with Cons.IH have "contains cs p" by auto
      then show ?thesis by simp
    qed
  qed
qed

lemma py_index_from_right:
  assumes "1 \<le> k" "k \<le> length xs"
  shows "py_index xs (- int k) = Inr (rev xs ! (k - 1))"
proof -
  have "nat (int (length xs) - int k) = length xs - k" by simp
  moreover have "rev xs ! (k - 1) = xs ! (length xs - k)"
    using assms by (simp add: rev_nth Suc_diff_Suc)
  ultimately show ?thesis using assms by (simp add: py_index_def)
qed

lemma py_index_value:
  "py_index xs j =
     (if 0 \<le> j then (if nat j < length xs then Inr (xs ! nat j) else Inl IndexError)
      else (if nat (- j) \<le> length xs then Inr (rev xs ! (nat (- j) - 1)) else Inl IndexError))"
proof (cases "0 \<le> j")
  case True
  then show ?thesis using py_index_nat [of xs "nat j"] by simp
next
  case False
  show ?thesis
  proof (cases "nat (- j) \<le> length xs")
    case True
    with False have "1 \<le> nat (- j)" by simp
    from py_index_from_right [OF this True] False True show ?thesis by simp
  next
    case f: False
    with False show ?thesis by (simp add: py_index_def)
  qed
qed

lemma py_eq_at_true_iff:
  "(py_eq_at a (int pos) b j = Inr True) =
     (pos < length a \<and>
      (if 0 \<le> j then nat j < length b \<and> a ! pos = b ! nat j
       else nat (- j) \<le> length b \<and> a ! pos = rev b ! (nat (- j) - 1)))"
  by (simp add: py_eq_at_def py_index_nat py_index_value [of b j])

lemma py_eq_at_from_left:
  assumes "0 \<le> j"
  shows "(py_eq_at a (int pos) b j = Inr True) =
           (pos < length a \<and> nat j < length b \<and> a ! pos = b ! nat j)"
  using assms by (simp add: py_eq_at_true_iff)

lemma py_eq_at_from_right:
  assumes "0 \<le> d"
  shows "(py_eq_at a (int pos) b (- (d + 1)) = Inr True) =
           (pos < length a \<and> nat d < length b \<and> a ! pos = rev b ! nat d)"
proof -
  have n: "nat (- (- (d + 1))) = Suc (nat d)" using assms by simp
  have j: "\<not> 0 \<le> - (d + 1)" using assms by simp
  show ?thesis
    unfolding py_eq_at_true_iff if_not_P [OF j] n by (simp add: less_eq_Suc_le)
qed

lemma flank_hit_right:
  "flank_hit ''prefix'' sequence right_flank (\<lambda>c. c - 1) v pos =
     right_flank_match sequence right_flank v pos"
proof (cases "py_int (column_field v)")
  case (Inl e)
  then show ?thesis by (simp add: flank_hit_def right_flank_match_def state_column_def)
next
  case (Inr c)
  show ?thesis
  proof (cases "1 \<le> c")
    case True
    then have "0 \<le> c - 1" by simp
    from py_eq_at_from_left [OF this] True show ?thesis
      by (simp add: flank_hit_def right_flank_match_def state_column_def Inr)
  next
    case False
    then have d: "0 \<le> - c" by simp
    have e: "c - 1 = - (- c + 1)" by simp
    have k: "(nat (- c) < length right_flank) = (nat (1 - c) \<le> length right_flank)"
      using False by (simp add: nat_less_iff nat_le_iff) linarith
    from py_eq_at_from_right [OF d, of sequence pos right_flank] False show ?thesis
      unfolding flank_hit_def right_flank_match_def state_column_def Inr e [symmetric]
      by (simp add: k)
  qed
qed

lemma flank_hit_left:
  "flank_hit ''suffix'' sequence left_flank (\<lambda>c. - (mx - c + 1)) v pos =
     left_flank_match sequence left_flank mx v pos"
proof (cases "py_int (column_field v)")
  case (Inl e)
  then show ?thesis by (simp add: flank_hit_def left_flank_match_def state_column_def)
next
  case (Inr c)
  show ?thesis
  proof (cases "c \<le> mx")
    case True
    then have d: "0 \<le> mx - c" by simp
    from py_eq_at_from_right [OF d, of sequence pos left_flank] True show ?thesis
      unfolding flank_hit_def left_flank_match_def state_column_def Inr
      by simp
  next
    case False
    then have j: "0 \<le> c - mx - 1" by simp
    have e: "- (mx - c + 1) = c - mx - 1" by simp
    from py_eq_at_from_left [OF j, of sequence pos left_flank] False show ?thesis
      unfolding flank_hit_def left_flank_match_def state_column_def Inr e
      by simp
  qed
qed

lemma find_max_hmm_index_value:
  "find_max_hmm_index prev ys =
     (let before = takeWhile (\<lambda>v. \<not> contains v ''suffix_end_suffix'') ys
      in if before = ys then Inr (- 1)
         else py_int (column_field (if before = [] then prev else last before)))"
proof (induction ys arbitrary: prev)
  case Nil
  then show ?case by simp
next
  case (Cons y ys)
  show ?case
  proof (cases "contains y ''suffix_end_suffix''")
    case True
    then show ?thesis by simp
  next
    case False
    then show ?thesis by (simp add: Cons.IH Let_def)
  qed
qed

lemma last_suffix_column_value:
  assumes "find_max_hmm_index (hd vs) vs = Inr mx"
  shows "last_suffix_column vs = Some mx"
  using assms
  by (auto simp add: find_max_hmm_index_value last_suffix_column_def state_column_def Let_def
        split: if_splits sum.splits)

lemma digit_of_digit_char:
  assumes "d < 10"
  shows "digit_of (digit_char d) = Some d"
proof -
  from assms have "d = 0 \<or> d = 1 \<or> d = 2 \<or> d = 3 \<or> d = 4 \<or> d = 5 \<or> d = 6 \<or> d = 7
                     \<or> d = 8 \<or> d = 9"
    by arith
  then show ?thesis
    by (elim disjE) (simp_all add: digit_of_def digit_char_def)
qed

lemma digit_char_plain:
  assumes "d < 10"
  shows "\<not> is_space (digit_char d) \<and> digit_char d \<noteq> CHR ''-'' \<and> digit_char d \<noteq> CHR ''+''
         \<and> digit_char d \<noteq> CHR ''_''"
proof -
  from assms have "d = 0 \<or> d = 1 \<or> d = 2 \<or> d = 3 \<or> d = 4 \<or> d = 5 \<or> d = 6 \<or> d = 7
                     \<or> d = 8 \<or> d = 9"
    by arith
  then show ?thesis
    by (elim disjE) (simp_all add: is_space_def digit_char_def)
qed

lemma digits_value_snoc:
  "digits_value (cs @ [c]) acc =
     (case digits_value cs acc of
        None \<Rightarrow> None
      | Some v \<Rightarrow> (case digit_of c of None \<Rightarrow> None | Some d \<Rightarrow> Some (10 * v + d)))"
  by (induction cs arbitrary: acc) (auto split: option.splits)

lemma string_of_nat_digits:
  "digits_value (string_of_nat n) 0 = Some n
   \<and> string_of_nat n \<noteq> []
   \<and> (\<forall>c \<in> set (string_of_nat n). \<not> is_space c \<and> c \<noteq> CHR ''-'' \<and> c \<noteq> CHR ''+''
                                      \<and> c \<noteq> CHR ''_'')"
proof (induction n rule: string_of_nat.induct)
  case (1 n)
  show ?case
  proof (cases "n < 10")
    case True
    then have s: "string_of_nat n = [digit_char n]" by (simp add: string_of_nat.simps)
    show ?thesis
      unfolding s using digit_of_digit_char [OF True] digit_char_plain [OF True] by simp
  next
    case False
    then have s: "string_of_nat n = string_of_nat (n div 10) @ [digit_char (n mod 10)]"
      by (subst string_of_nat.simps) simp
    have m: "n mod 10 < 10" by simp
    note IH = "1.IH" [OF False]
    have "digits_value (string_of_nat n) 0 = Some (10 * (n div 10) + n mod 10)"
      unfolding s digits_value_snoc using IH digit_of_digit_char [OF m] by simp
    then have v: "digits_value (string_of_nat n) 0 = Some n" by simp
    show ?thesis
      using v IH digit_char_plain [OF m] unfolding s by simp
  qed
qed

lemma strip_plain:
  assumes "s \<noteq> []" "\<forall>c \<in> set s. \<not> is_space c"
  shows "strip s = s"
proof -
  from assms have h: "\<not> is_space (hd s)" by simp
  then have d: "dropWhile is_space s = s" using assms(1) by (cases s) simp_all
  from assms have "\<not> is_space (hd (rev s))" by (simp add: hd_rev)
  then have "dropWhile is_space (rev s) = rev s" using assms(1) by (cases "rev s") simp_all
  with d show ?thesis by (simp add: strip_def)
qed

lemma py_int_string_of_nat: "py_int (string_of_nat n) = Inr (int n)"
proof -
  note d = string_of_nat_digits [of n]
  from d have ne: "string_of_nat n \<noteq> []" by simp
  from d have sp: "\<forall>c \<in> set (string_of_nat n). \<not> is_space c" by simp
  have st: "strip (string_of_nat n) = string_of_nat n" by (rule strip_plain [OF ne sp])
  from d ne have h: "hd (string_of_nat n) \<noteq> CHR ''-''" "hd (string_of_nat n) \<noteq> CHR ''+''"
    by (metis hd_in_set)+
  show ?thesis
    unfolding py_int_def st Let_def using ne h d by simp
qed

lemma state_column_of_name:
  assumes "kind \<noteq> CHR ''_''"
  shows "state_column (kind # string_of_nat n @ ''_'' @ tag) = Some (int n)"
proof -
  from string_of_nat_digits [of n]
  have u: "\<forall>c \<in> set (string_of_nat n). c \<noteq> CHR ''_''" by simp
  have "takeWhile (\<lambda>c. c \<noteq> CHR ''_'') (string_of_nat n @ ''_'' @ tag) = string_of_nat n"
    using u by (simp add: takeWhile_append2)
  then have "column_field (kind # string_of_nat n @ ''_'' @ tag) = string_of_nat n"
    using assms by (simp add: column_field_def)
  then show ?thesis by (simp add: state_column_def py_int_string_of_nat)
qed

lemma flank_rate_counts:
  assumes "get_flanking_regions_matching_rate vpath sequence left_flank right_flank
             accuracy_filter verbose = Inr r"
  obtains last_column and s :: flank_scan where
    "last_suffix_column (visited_states_of vpath) = Some last_column"
    "right_flanking_matches s =
       count_positions (right_flank_match sequence right_flank) (visited_states_of vpath)"
    "right_flanking_basepairs s =
       count_positions (\<lambda>v pos. flank_emitted ''prefix'' v) (visited_states_of vpath)"
    "left_flanking_matches s =
       count_positions (left_flank_match sequence left_flank last_column)
         (visited_states_of vpath)"
    "left_flanking_basepairs s =
       count_positions (\<lambda>v pos. flank_emitted ''suffix'' v) (visited_states_of vpath)"
    "r = min (side_rate accuracy_filter (right_flanking_matches s) (right_flanking_basepairs s))
             (side_rate accuracy_filter (left_flanking_matches s) (left_flanking_basepairs s))"
proof -
  define vs where "vs = visited_states_of vpath"
  from assms obtain first rest where vs: "vs = first # rest"
    by (auto simp add: get_flanking_regions_matching_rate_def vs_def Let_def split: list.splits)
  from assms vs obtain mx where mx: "find_max_hmm_index first vs = Inr mx"
    by (auto simp add: get_flanking_regions_matching_rate_def vs_def [symmetric] Let_def
          split: sum.splits)
  from assms vs mx obtain s where
    lp: "flank_loop verbose sequence left_flank right_flank mx vs flank_scan_init = Inr s"
    and r: "r = min (side_rate accuracy_filter (right_flanking_matches s)
                       (right_flanking_basepairs s))
                    (side_rate accuracy_filter (left_flanking_matches s)
                       (left_flanking_basepairs s))"
    by (auto simp add: get_flanking_regions_matching_rate_def vs_def [symmetric] Let_def
          split: sum.splits)
  have "seq_index flank_scan_init = emitted_count []"
    by (simp add: flank_scan_init_def emitted_count_def)
  note counts = flank_loop_counts [OF lp this]
  have fr: "flank_hit ''prefix'' sequence right_flank (\<lambda>c. c - 1) =
              right_flank_match sequence right_flank"
    by (intro ext) (rule flank_hit_right)
  have fl: "flank_hit ''suffix'' sequence left_flank (\<lambda>c. - (mx - c + 1)) =
              left_flank_match sequence left_flank mx"
    by (intro ext) (rule flank_hit_left)
  have z: "right_flanking_matches flank_scan_init = 0"
    "right_flanking_basepairs flank_scan_init = 0"
    "left_flanking_matches flank_scan_init = 0"
    "left_flanking_basepairs flank_scan_init = 0"
    by (simp_all add: flank_scan_init_def)
  have c: "right_flanking_matches s =
             count_positions (right_flank_match sequence right_flank) vs"
    "right_flanking_basepairs s = count_positions (\<lambda>v pos. flank_emitted ''prefix'' v) vs"
    "left_flanking_matches s =
             count_positions (left_flank_match sequence left_flank mx) vs"
    "left_flanking_basepairs s = count_positions (\<lambda>v pos. flank_emitted ''suffix'' v) vs"
    using counts unfolding fr fl count_from_all z add_0 by blast+
  have "find_max_hmm_index (hd vs) vs = Inr mx" using mx vs by simp
  then have l: "last_suffix_column vs = Some mx" by (rule last_suffix_column_value)
  from that [OF l [unfolded vs_def] c [unfolded vs_def] r] show thesis .
qed

text \<open>
  C7. Whenever \<open>get_flanking_regions_matching_rate\<close> returns, it returns
  \<open>min(right_rate, left_rate)\<close>. The rate of a side is the number of its matches divided
  by the number of its emitted bases: on the right over the states tagged \<open>prefix\<close>, a
  match state matching when its base is the base of \<open>right_flank\<close> at its column; on the
  left over the states tagged \<open>suffix\<close>, a match state matching when its base is the base
  of \<open>left_flank\<close> at its column counted from the right end of the flank, the last column
  being the one visited before \<open>suffix_end_suffix\<close>. A side without emitted bases has
  rate 1 when the accuracy filter is off and \<open>epsilon = 1e-5\<close> when it is on.
\<close>

theorem get_flanking_regions_matching_rate_spec:
  assumes "get_flanking_regions_matching_rate vpath sequence left_flank right_flank
             accuracy_filter verbose = Inr r"
  shows "\<exists>last_column.
           last_suffix_column (visited_states_of vpath) = Some last_column
         \<and> (let vs = visited_states_of vpath;
                 right_matches = count_positions (right_flank_match sequence right_flank) vs;
                 right_emitted = count_positions (\<lambda>v pos. flank_emitted ''prefix'' v) vs;
                 left_matches =
                   count_positions (left_flank_match sequence left_flank last_column) vs;
                 left_emitted = count_positions (\<lambda>v pos. flank_emitted ''suffix'' v) vs;
                 right_rate = (if right_emitted \<noteq> 0
                               then of_nat right_matches / of_nat right_emitted
                               else if accuracy_filter then 1 / 100000 else 1);
                 left_rate = (if left_emitted \<noteq> 0
                              then of_nat left_matches / of_nat left_emitted
                              else if accuracy_filter then 1 / 100000 else 1)
             in r = min right_rate left_rate)"
proof -
  from flank_rate_counts [OF assms] obtain last_column and s :: flank_scan where
    l: "last_suffix_column (visited_states_of vpath) = Some last_column"
    and c: "right_flanking_matches s =
       count_positions (right_flank_match sequence right_flank) (visited_states_of vpath)"
    "right_flanking_basepairs s =
       count_positions (\<lambda>v pos. flank_emitted ''prefix'' v) (visited_states_of vpath)"
    "left_flanking_matches s =
       count_positions (left_flank_match sequence left_flank last_column)
         (visited_states_of vpath)"
    "left_flanking_basepairs s =
       count_positions (\<lambda>v pos. flank_emitted ''suffix'' v) (visited_states_of vpath)"
    and r: "r = min (side_rate accuracy_filter (right_flanking_matches s)
                       (right_flanking_basepairs s))
                    (side_rate accuracy_filter (left_flanking_matches s)
                       (left_flanking_basepairs s))"
    by blast
  have sr: "side_rate accuracy_filter m b =
              (if b \<noteq> 0 then of_nat m / of_nat b else if accuracy_filter then 1 / 100000 else 1)"
    for m b
    by (simp add: side_rate_def)
  have "let vs = visited_states_of vpath;
                 right_matches = count_positions (right_flank_match sequence right_flank) vs;
                 right_emitted = count_positions (\<lambda>v pos. flank_emitted ''prefix'' v) vs;
                 left_matches =
                   count_positions (left_flank_match sequence left_flank last_column) vs;
                 left_emitted = count_positions (\<lambda>v pos. flank_emitted ''suffix'' v) vs;
                 right_rate = (if right_emitted \<noteq> 0
                               then of_nat right_matches / of_nat right_emitted
                               else if accuracy_filter then 1 / 100000 else 1);
                 left_rate = (if left_emitted \<noteq> 0
                              then of_nat left_matches / of_nat left_emitted
                              else if accuracy_filter then 1 / 100000 else 1)
             in r = min right_rate left_rate"
    unfolding Let_def r c sr by (rule refl)
  with l show ?thesis by blast
qed

text \<open>
  The witness: on the example path the left flank \<open>GGAC\<close> is read from its right end
  (columns 2 and 3 match \<open>A\<close> and \<open>C\<close>, column 1 meets \<open>G\<close>), which gives 2 matches over
  3 emitted bases; the right side has 2 matches over 4 emitted bases, and the result is
  the smaller quotient. A path through the repeat alone has no emitted base on either
  side and yields \<open>epsilon\<close> with the accuracy filter.
\<close>

theorem get_flanking_regions_matching_rate_witness:
  "get_flanking_regions_matching_rate example_vpath ''TACCAGTCGT'' ''GGAC'' ''TCA'' False False
     = Inr (1 / 2)
   \<and> last_suffix_column (visited_states_of example_vpath) = Some 3
   \<and> count_positions (left_flank_match ''TACCAGTCGT'' ''GGAC'' 3)
        (visited_states_of example_vpath) = 2
   \<and> count_positions (\<lambda>v pos. flank_emitted ''suffix'' v) (visited_states_of example_vpath) = 3
   \<and> count_positions (right_flank_match ''TACCAGTCGT'' ''TCA'')
        (visited_states_of example_vpath) = 2
   \<and> count_positions (\<lambda>v pos. flank_emitted ''prefix'' v) (visited_states_of example_vpath) = 4
   \<and> (1 / 2 :: rat) = min (of_nat 2 / of_nat 4) (of_nat 2 / of_nat 3)
   \<and> get_flanking_regions_matching_rate
        [''Read Matcher-start'', ''unit_start_0'', ''M1_0'', ''M2_0'', ''M3_0'',
         ''Read Matcher-end''] ''CAG'' ''GGAC'' ''TCA'' True False
     = Inr (1 / 100000)"
proof -
  have g: "get_flanking_regions_matching_rate example_vpath ''TACCAGTCGT'' ''GGAC'' ''TCA''
             False False = Inr (1 / 2)"
    by code_simp
  have e: "get_flanking_regions_matching_rate
        [''Read Matcher-start'', ''unit_start_0'', ''M1_0'', ''M2_0'', ''M3_0'',
         ''Read Matcher-end''] ''CAG'' ''GGAC'' ''TCA'' True False
     = Inr (1 / 100000)"
    by code_simp
  have l: "last_suffix_column (visited_states_of example_vpath) = Some 3"
    by code_simp
  have c1: "count_positions (left_flank_match ''TACCAGTCGT'' ''GGAC'' 3)
        (visited_states_of example_vpath) = 2"
    by code_simp
  have c2: "count_positions (\<lambda>v pos. flank_emitted ''suffix'' v)
        (visited_states_of example_vpath) = 3"
    by code_simp
  have c3: "count_positions (right_flank_match ''TACCAGTCGT'' ''TCA'')
        (visited_states_of example_vpath) = 2"
    by code_simp
  have c4: "count_positions (\<lambda>v pos. flank_emitted ''prefix'' v)
        (visited_states_of example_vpath) = 4"
    by code_simp
  from get_flanking_regions_matching_rate_spec [OF g] obtain last_column where
    lc: "last_suffix_column (visited_states_of example_vpath) = Some last_column"
    and r: "let vs = visited_states_of example_vpath;
                 right_matches = count_positions (right_flank_match ''TACCAGTCGT'' ''TCA'') vs;
                 right_emitted = count_positions (\<lambda>v pos. flank_emitted ''prefix'' v) vs;
                 left_matches =
                   count_positions (left_flank_match ''TACCAGTCGT'' ''GGAC'' last_column) vs;
                 left_emitted = count_positions (\<lambda>v pos. flank_emitted ''suffix'' v) vs;
                 right_rate = (if right_emitted \<noteq> 0
                               then of_nat right_matches / of_nat right_emitted
                               else if False then 1 / 100000 else 1);
                 left_rate = (if left_emitted \<noteq> 0
                              then of_nat left_matches / of_nat left_emitted
                              else if False then 1 / 100000 else 1)
             in (1 / 2 :: rat) = min right_rate left_rate"
    by (elim exE conjE)
  from lc l have lc3: "last_column = 3" by simp
  have m: "(1 / 2 :: rat) = min (of_nat 2 / of_nat 4) (of_nat 2 / of_nat 3)"
    using r unfolding Let_def lc3 c1 c2 c3 c4 by simp
  show ?thesis by (intro conjI g l c1 c2 c3 c4 m e)
qed

lemma first_field_of_name:
  assumes "CHR ''_'' \<notin> set a"
  shows "first_field (a @ ''_'' @ b) = a"
  using assms by (auto simp add: first_field_def takeWhile_tail)

lemma slice_filter_length:
  assumes "k \<le> length vs"
  shows "length (filter P (take (k - p) (drop p vs))) =
           length (filter (\<lambda>j. P (vs ! j)) [p..<k])"
proof -
  have "map (\<lambda>j. vs ! j) [p..<k] = take (k - p) (drop p vs)"
  proof (rule map_upt_eqI)
    show "length (take (k - p) (drop p vs)) = k - p" using assms by simp
  next
    fix i assume "i < length (take (k - p) (drop p vs))"
    then have i: "i < k - p" and "i < length vs - p" by simp_all
    then have "p \<le> length vs" by simp
    with i show "take (k - p) (drop p vs) ! i = vs ! (p + i)" by simp
  qed
  then have "filter P (take (k - p) (drop p vs)) = filter P (map (\<lambda>j. vs ! j) [p..<k])"
    by simp
  then show ?thesis by (simp add: comp_def)
qed

lemma unit_starts_before_Suc:
  "unit_starts_before vs (Suc k) =
     unit_starts_before vs k @ (if startswith (vs ! k) ''unit_start'' then [k] else [])"
  by (simp add: unit_starts_before_def)

lemma lengths_fold:
  "k \<le> length vs \<Longrightarrow>
   fold (lengths_step vs) [0..<k] ([], None) =
     (map (\<lambda>i. length (filter (\<lambda>j. is_emitting_state (vs ! j))
                          [last (unit_starts_before vs i)..<i]))
        (filter (\<lambda>i. startswith (vs ! i) ''unit_end'' \<and> unit_starts_before vs i \<noteq> [])
           [0..<k]),
      if unit_starts_before vs k = [] then None else Some (last (unit_starts_before vs k)))"
proof (induction k)
  case 0
  then show ?case by (simp add: unit_starts_before_def)
next
  case (Suc k)
  then have k: "k \<le> length vs" by simp
  define L where "L = map (\<lambda>i. length (filter (\<lambda>j. is_emitting_state (vs ! j))
                          [last (unit_starts_before vs i)..<i]))
        (filter (\<lambda>i. startswith (vs ! i) ''unit_end'' \<and> unit_starts_before vs i \<noteq> [])
           [0..<k])"
  define U where "U = unit_starts_before vs k"
  have IH: "fold (lengths_step vs) [0..<k] ([], None) =
              (L, if U = [] then None else Some (last U))"
    unfolding L_def U_def by (rule Suc.IH [OF k])
  have step: "fold (lengths_step vs) [0..<Suc k] ([], None) =
                lengths_step vs k (L, if U = [] then None else Some (last U))"
    by (simp add: IH)
  have sl: "length (filter is_emitting_state (take (k - p) (drop p vs))) =
              length (filter (\<lambda>j. is_emitting_state (vs ! j)) [p..<k])" for p
    by (rule slice_filter_length [OF k])
  have L': "map (\<lambda>i. length (filter (\<lambda>j. is_emitting_state (vs ! j))
                          [last (unit_starts_before vs i)..<i]))
        (filter (\<lambda>i. startswith (vs ! i) ''unit_end'' \<and> unit_starts_before vs i \<noteq> [])
           [0..<Suc k]) =
        L @ (if startswith (vs ! k) ''unit_end'' \<and> U \<noteq> []
             then [length (filter (\<lambda>j. is_emitting_state (vs ! j)) [last U..<k])] else [])"
    by (simp add: L_def U_def)
  have U': "unit_starts_before vs (Suc k) =
              U @ (if startswith (vs ! k) ''unit_start'' then [k] else [])"
    by (simp add: U_def unit_starts_before_Suc)
  show ?case
    unfolding step L' U'
    by (simp add: lengths_step_def Let_def sl)
qed

lemma get_repeating_pattern_lengths_value:
  "get_repeating_pattern_lengths vs = unit_lengths vs"
  using lengths_fold [of "length vs" vs]
  by (simp add: get_repeating_pattern_lengths_def unit_lengths_def)

lemma count_fold_filter:
  "fold (\<lambda>v result. if P v then result + 1 else result) xs (n::nat) = n + length (filter P xs)"
  by (induction xs arbitrary: n) simp_all

lemma get_number_of_repeat_bp_matches_value:
  "get_number_of_repeat_bp_matches_in_vpath vpath = repeat_bps vpath"
  by (simp add: get_number_of_repeat_bp_matches_in_vpath_def repeat_bps_def count_fold_filter)

lemma first_visit_position_own:
  assumes "i < length vs" "vs ! i \<notin> set (take i vs)"
  shows "first_visit_position vs (vs ! i) = length (filter is_emitting_state (take i vs))"
proof -
  have vs: "vs = take i vs @ vs ! i # drop (Suc i) vs"
    using assms(1) by (simp add: id_take_nth_drop)
  have "takeWhile (\<lambda>u. u \<noteq> vs ! i) (take i vs @ vs ! i # drop (Suc i) vs) = take i vs"
    using assms(2) by (auto simp add: takeWhile_tail)
  with vs have "takeWhile (\<lambda>u. u \<noteq> vs ! i) vs = take i vs" by simp
  then show ?thesis by (simp add: first_visit_position_def)
qed

lemma sorted_le_last:
  "sorted (zs :: nat list) \<Longrightarrow> z \<in> set zs \<Longrightarrow> z \<le> last zs"
proof (induction zs)
  case Nil
  then show ?case by simp
next
  case (Cons a zs)
  show ?case
  proof (cases "zs = []")
    case True
    with Cons.prems show ?thesis by simp
  next
    case False
    then have l: "last (a # zs) = last zs" by simp
    from Cons.prems(1) have s: "sorted zs" and a: "\<forall>y \<in> set zs. a \<le> y" by simp_all
    from False a have "a \<le> last zs" by simp
    moreover have "z \<in> set zs \<Longrightarrow> z \<le> last zs" using Cons.IH [OF s] by simp
    ultimately show ?thesis using Cons.prems(2) l by auto
  qed
qed

lemma last_sort_key_max:
  assumes "ms \<noteq> []"
  shows "last (sort_key snd ms) \<in> set ms
         \<and> (\<forall>x \<in> set ms. (snd x :: nat) \<le> snd (last (sort_key snd ms)))"
proof -
  have ne: "sort_key snd ms \<noteq> []" using assms by (metis length_sort length_0_conv)
  then have m: "last (sort_key snd ms) \<in> set ms" by (metis last_in_set set_sort)
  have s: "sorted (map snd (sort_key snd ms))" by (rule sorted_sort_key)
  have l: "last (map snd (sort_key snd ms)) = snd (last (sort_key snd ms))"
    using ne by (rule last_map)
  have "snd x \<le> snd (last (sort_key snd ms))" if "x \<in> set ms" for x
  proof -
    from that have "snd x \<in> set (map snd (sort_key snd ms))" by simp
    from sorted_le_last [OF s this] l show ?thesis by simp
  qed
  with m show ?thesis by blast
qed

lemma map_of_bump_present:
  "map_of (map (\<lambda>(k, c). if k = l then (k, c + 1) else (k, c)) ms) label =
     (if label = l then map_option (\<lambda>c. c + 1) (map_of ms label) else map_of ms label)"
  by (induction ms) auto

lemma table_count_bump:
  "table_count (bump_mutation l ms) label = table_count ms label + (if label = l then 1 else 0)"
proof (cases "l \<in> fst ` set ms")
  case True
  then obtain c where "map_of ms l = Some c"
    by (metis domIff dom_map_of_conv_image_fst not_Some_eq)
  with True show ?thesis
    by (auto simp add: table_count_def bump_mutation_def map_of_bump_present split: option.splits)
next
  case False
  then have "map_of ms l = None" by (simp add: map_of_eq_None_iff)
  with False show ?thesis
    by (auto simp add: table_count_def bump_mutation_def map_add_def split: option.splits)
qed

lemma table_count_fold:
  "table_count (fold bump_mutation ls ms) label = table_count ms label + count_list ls label"
  by (induction ls arbitrary: ms) (auto simp add: table_count_bump)

lemma unit_of_snoc:
  "unit_of (xs @ [v]) =
     (if opens_unit v then (case unit_of xs of None \<Rightarrow> Some 0 | Some c \<Rightarrow> Some (c + 1))
      else unit_of xs)"
  by (auto simp add: unit_of_def Let_def)

lemma first_field_startswith:
  "startswith (first_field v) ''I'' = startswith v ''I''"
  by (cases v) (auto simp add: startswith_def first_field_def)

lemma mutation_label_value:
  assumes "v \<in> set vs" "mutation_label vs sequence v = Inr state"
  shows "state = event_label vs sequence v"
proof (cases "startswith v ''I''")
  case True
  have g: "get_emitted_basepair_from_visited_states v vs sequence =
             (if first_visit_position vs v < length sequence
              then Inr (Some (sequence ! first_visit_position vs v)) else Inl IndexError)"
    using emitted_basepair_loop_present [OF assms(1), of sequence 0]
    by (simp add: get_emitted_basepair_from_visited_states_def first_visit_position_def Let_def)
  from assms(2) True show ?thesis
    by (auto simp add: mutation_label_def Let_def first_field_startswith g event_label_def
          split: if_splits)
next
  case False
  with assms(2) show ?thesis
    by (simp add: mutation_label_def Let_def first_field_startswith event_label_def)
qed

lemma frameshift_step_result:
  assumes "frameshift_step plen vs sequence lens v (unit_of xs, ms) = Inr st'"
    and "v \<in> set vs"
  shows "st' = (unit_of (xs @ [v]),
                if counted_event plen lens v (unit_of (xs @ [v]))
                then bump_mutation (event_label vs sequence v) ms else ms)"
proof (cases "endswith v ''fix'' \<or> startswith v ''M''")
  case True
  then have "\<not> opens_unit v" "\<not> indel_state v" by (auto simp add: opens_unit_def indel_state_def)
  with True assms(1) show ?thesis
    by (auto simp add: frameshift_step_def unit_of_snoc counted_event_def)
next
  case False
  then have o: "opens_unit v = startswith v ''unit_start''"
    and d: "indel_state v = (startswith v ''I'' \<or> startswith v ''D'')"
    by (auto simp add: opens_unit_def indel_state_def)
  define cr where "cr = unit_of (xs @ [v])"
  have cr: "(if startswith v ''unit_start''
             then (case unit_of xs of None \<Rightarrow> Some 0 | Some c \<Rightarrow> Some (c + 1))
             else unit_of xs) = cr"
    by (simp add: cr_def unit_of_snoc o)
  have a: "(case cr of
                 None \<Rightarrow> Inr (cr, ms)
               | Some c \<Rightarrow>
                   if c \<ge> length lens then Inr (cr, ms)
                   else if \<not> startswith v ''I'' \<and> \<not> startswith v ''D''
                     then Inr (cr, ms)
                   else
                     (case mutation_label vs sequence v of
                        Inl e \<Rightarrow> Inl e
                      | Inr state \<Rightarrow>
                          Inr (cr, if lens ! c \<noteq> plen
                               then bump_mutation state ms else ms))) = Inr st'"
    using assms(1) False unfolding frameshift_step_def Let_def fst_conv snd_conv cr by simp
  show ?thesis
  proof (cases cr)
    case None
    with a show ?thesis by (simp add: cr_def [symmetric] counted_event_def)
  next
    case (Some c)
    show ?thesis
    proof (cases "c \<ge> length lens \<or> \<not> indel_state v")
      case True
      with a Some d show ?thesis
        by (auto simp add: cr_def [symmetric] counted_event_def split: if_splits)
    next
      case False
      with a Some d obtain state where l: "mutation_label vs sequence v = Inr state"
        and s: "st' = (cr, if lens ! c \<noteq> plen then bump_mutation state ms else ms)"
        by (auto split: sum.splits)
      from mutation_label_value [OF assms(2) l] have "event_label vs sequence v = state"
        by simp
      with s False Some show ?thesis by (auto simp add: cr_def [symmetric] counted_event_def)
    qed
  qed
qed

lemma events_from_empty: "events_from plen vs sequence lens a a = []"
  by (simp add: events_from_def)

lemma events_from_first:
  assumes "a < b"
  shows "events_from plen vs sequence lens a b =
           (if counted_event plen lens (vs ! a) (unit_of (take (Suc a) vs))
            then [event_label vs sequence (vs ! a)] else [])
           @ events_from plen vs sequence lens (Suc a) b"
  by (simp add: events_from_def upt_conv_Cons [OF assms])

lemma frameshift_loop_result:
  assumes "frameshift_loop plen vs sequence lens ys (unit_of xs, ms) = Inr st'"
    and "vs = xs @ ys"
  shows "snd st' = fold bump_mutation
                     (events_from plen vs sequence lens (length xs) (length vs)) ms"
  using assms
proof (induction ys arbitrary: xs ms)
  case Nil
  then show ?case by (auto simp add: events_from_empty)
next
  case (Cons v ys)
  from Cons.prems(1) obtain st1 where
    st: "frameshift_step plen vs sequence lens v (unit_of xs, ms) = Inr st1"
    and lp: "frameshift_loop plen vs sequence lens ys st1 = Inr st'"
    by (auto split: sum.splits)
  define ms1 where "ms1 = (if counted_event plen lens v (unit_of (xs @ [v]))
                then bump_mutation (event_label vs sequence v) ms else ms)"
  have mem: "v \<in> set vs" using Cons.prems(2) by simp
  have st1: "st1 = (unit_of (xs @ [v]), ms1)"
    unfolding ms1_def by (rule frameshift_step_result [OF st mem])
  have vs: "vs = (xs @ [v]) @ ys" using Cons.prems(2) by simp
  from lp have lp': "frameshift_loop plen vs sequence lens ys (unit_of (xs @ [v]), ms1) = Inr st'"
    by (simp add: st1)
  note IH = Cons.IH [OF lp' vs]
  have lt: "length xs < length vs" using Cons.prems(2) by simp
  have nth: "vs ! length xs = v" using Cons.prems(2) by simp
  have tk: "take (Suc (length xs)) vs = xs @ [v]" using Cons.prems(2) by simp
  show ?case
    unfolding events_from_first [OF lt] nth tk
    using IH by (simp add: ms1_def)
qed

lemma frameshift_reads_result:
  assumes "frameshift_reads plen reads (ms, b) = Inr (ms', b')"
  shows "ms' = fold bump_mutation (concat (map (indel_events plen) reads)) ms
         \<and> b' = b + sum_list (map (\<lambda>r. repeat_bps (snd (snd r))) reads)"
  using assms
proof (induction reads arbitrary: ms b)
  case Nil
  then show ?case by simp
next
  case (Cons read reads)
  obtain sequence logp vpath where read: "read = (sequence, logp, vpath)"
    by (cases read) auto
  define vs where "vs = visited_states_of vpath"
  define lens where "lens = get_repeating_pattern_lengths vs"
  from Cons.prems obtain st1 where
    lp: "frameshift_loop plen vs sequence lens vs (None, ms) = Inr st1"
    and rest: "frameshift_reads plen reads
                 (snd st1, b + get_number_of_repeat_bp_matches_in_vpath vpath) = Inr (ms', b')"
    by (auto simp add: read Let_def vs_def lens_def split: sum.splits)
  have u: "unit_of [] = None" by (simp add: unit_of_def)
  from lp have "frameshift_loop plen vs sequence lens vs (unit_of [], ms) = Inr st1"
    by (simp add: u)
  from frameshift_loop_result [OF this] have
    s: "snd st1 = fold bump_mutation (indel_events plen read) ms"
    by (simp add: indel_events_def read vs_def lens_def Let_def
          get_repeating_pattern_lengths_value)
  from Cons.IH [OF rest] s show ?case
    by (simp add: read get_number_of_repeat_bp_matches_value)
qed

lemma bump_mutation_keys:
  "map (fst \<circ> (\<lambda>(k, c). if k = l then (k, c + 1 :: nat) else (k, c))) ms = map fst ms"
  by (induction ms) auto

lemma distinct_bump_mutation:
  "distinct (map fst ms) \<Longrightarrow> distinct (map fst (bump_mutation l ms))"
  by (auto simp add: bump_mutation_def bump_mutation_keys)

lemma distinct_fold_bump:
  "distinct (map fst ms) \<Longrightarrow> distinct (map fst (fold bump_mutation ls ms))"
  by (induction ls arbitrary: ms) (simp_all add: distinct_bump_mutation)

lemma fold_bump_empty_iff:
  "(fold bump_mutation ls ms = []) = (ls = [] \<and> ms = [])"
proof (induction ls arbitrary: ms)
  case Nil
  then show ?case by simp
next
  case (Cons l ls)
  have "bump_mutation l ms \<noteq> []" by (auto simp add: bump_mutation_def)
  with Cons show ?case by simp
qed

lemma find_frameshift_unfold:
  assumes "find_frameshift_from_selected_reads vntr reads = Inr rep"
  defines "events \<equiv> concat (map (indel_events (length (pattern vntr))) reads)"
  shows "mutations rep = fold bump_mutation events []"
    and "repeating_bps_in_data rep = sum_list (map (\<lambda>r. repeat_bps (snd (snd r))) reads)"
    and "frameshift_candidate rep =
           (if mutations rep \<noteq> []
            then (Some (fst (last (sort_key snd (mutations rep)))),
                  snd (last (sort_key snd (mutations rep))))
            else (None, 0))"
    and "frameshift_reported rep =
           (of_nat (snd (frameshift_candidate rep))
              > (of_nat (repeating_bps_in_data rep) / of_int (vntr_length vntr) :: rat) / 3)"
proof -
  from assms(1) obtain muts bps where
    fr: "frameshift_reads (length (pattern vntr)) reads ([], 0) = Inr (muts, bps)"
    by (auto simp add: find_frameshift_from_selected_reads_def split: sum.splits)
  from frameshift_reads_result [OF fr] have
    m: "muts = fold bump_mutation events []"
    and b: "bps = sum_list (map (\<lambda>r. repeat_bps (snd (snd r))) reads)"
    by (simp_all add: events_def)
  have e: "(sort_key snd muts = []) = (muts = [])"
    by (metis length_sort length_0_conv)
  from assms(1) fr have rep: "rep =
     \<lparr>mutations = muts,
      frameshift_candidate =
        (if muts \<noteq> [] then (Some (fst (last (sort_key snd muts))), snd (last (sort_key snd muts)))
         else (None, 0)),
      repeating_bps_in_data = bps,
      frameshift_reported =
        (of_nat (snd (if muts \<noteq> []
                      then (Some (fst (last (sort_key snd muts))), snd (last (sort_key snd muts)))
                      else (None, 0)))
           > (of_nat bps / of_int (vntr_length vntr) :: rat) / 3)\<rparr>"
    by (auto simp add: find_frameshift_from_selected_reads_def Let_def e split: if_splits)
  show "mutations rep = fold bump_mutation events []" by (simp add: rep m)
  show "repeating_bps_in_data rep = sum_list (map (\<lambda>r. repeat_bps (snd (snd r))) reads)"
    by (simp add: rep b)
  show "frameshift_candidate rep =
           (if mutations rep \<noteq> []
            then (Some (fst (last (sort_key snd (mutations rep)))),
                  snd (last (sort_key snd (mutations rep))))
            else (None, 0))"
    by (simp add: rep)
  show "frameshift_reported rep =
           (of_nat (snd (frameshift_candidate rep))
              > (of_nat (repeating_bps_in_data rep) / of_int (vntr_length vntr) :: rat) / 3)"
    by (simp add: rep)
qed

text \<open>
  C8 (as stated). An insertion event is not always labelled with the base it emits. In
  the read \<open>CCGAG\<close> the insertion state \<open>I1_0\<close> is visited twice in a unit of emitted
  length 5, emitting \<open>C\<close> and then \<open>G\<close>; the dictionary counts both events under
  \<open>I1C\<close>, the base of the first visit, and has no entry \<open>I1G\<close>.
\<close>

theorem find_frameshift_label_counterexample:
  "find_frameshift_from_selected_reads frameshift_example_vntr [repeated_insertion_read]
     = Inr \<lparr>mutations = [(''I1C'', 2)], frameshift_candidate = (Some ''I1C'', 2),
            repeating_bps_in_data = 5, frameshift_reported = True\<rparr>
   \<and> visited_states_of (snd (snd repeated_insertion_read)) ! 3 = ''I1_0''
   \<and> fst repeated_insertion_read
        ! length (filter is_emitting_state
                    (take 3 (visited_states_of (snd (snd repeated_insertion_read)))))
      = CHR ''G''"
  by code_simp

text \<open>
  C8 (amended). Whenever \<open>find_frameshift_from_selected_reads\<close> completes: its
  dictionary counts, for every label, the visits of insertion and deletion states of the
  repeat inside repeat units whose emitted length differs from the length of the
  pattern; an insertion is labelled with the base emitted at the first visit of its state
  in the read, which is the event's own base whenever the state was not visited before;
  the candidate is a label with the highest count together with that count (and
  \<open>(None, 0)\<close> when there is no event); and the frameshift is reported exactly when the
  count of the candidate exceeds \<open>(repeating_bps_in_data / vntr_length) / 3\<close>, where
  \<open>repeating_bps_in_data\<close> is the number of emitting states outside the flanks summed
  over the selected reads.
\<close>

theorem find_frameshift_from_selected_reads_spec:
  assumes "find_frameshift_from_selected_reads vntr reads = Inr rep"
  shows "let events = concat (map (indel_events (length (pattern vntr))) reads);
             bps = sum_list (map (\<lambda>r. repeat_bps (snd (snd r))) reads)
         in (\<forall>label. table_count (mutations rep) label = count_list events label)
            \<and> (events = [] \<longrightarrow> frameshift_candidate rep = (None, 0))
            \<and> (events \<noteq> [] \<longrightarrow>
                 (\<exists>l. frameshift_candidate rep = (Some l, count_list events l)
                      \<and> l \<in> set events
                      \<and> (\<forall>l'. count_list events l' \<le> count_list events l)))
            \<and> repeating_bps_in_data rep = bps
            \<and> (frameshift_reported rep =
                 (of_nat (snd (frameshift_candidate rep))
                    > (of_nat bps / of_int (vntr_length vntr) :: rat) / 3))
            \<and> (\<forall>vs i. i < length vs \<longrightarrow> vs ! i \<notin> set (take i vs) \<longrightarrow>
                  first_visit_position vs (vs ! i) =
                    length (filter is_emitting_state (take i vs)))"
proof -
  define events where "events = concat (map (indel_events (length (pattern vntr))) reads)"
  define bps where "bps = sum_list (map (\<lambda>r. repeat_bps (snd (snd r))) reads)"
  note u = find_frameshift_unfold [OF assms, folded events_def bps_def]
  define ms where "ms = mutations rep"
  have ms: "ms = fold bump_mutation events []" by (simp add: ms_def u(1))
  have tc: "table_count ms label = count_list events label" for label
    unfolding ms table_count_fold by (simp add: table_count_def)
  have dist: "distinct (map fst ms)" unfolding ms by (rule distinct_fold_bump) simp
  have empty: "(ms = []) = (events = [])" by (simp add: ms fold_bump_empty_iff)
  have none: "frameshift_candidate rep = (None, 0)" if "events = []"
    using that empty u(3) by (simp add: ms_def)
  have some: "\<exists>l. frameshift_candidate rep = (Some l, count_list events l)
                      \<and> l \<in> set events
                      \<and> (\<forall>l'. count_list events l' \<le> count_list events l)"
    if ne: "events \<noteq> []"
  proof -
    from ne empty have mne: "ms \<noteq> []" by simp
    define top where "top = last (sort_key snd ms)"
    from last_sort_key_max [OF mne] have
      mem: "top \<in> set ms" and mx: "\<forall>x \<in> set ms. snd x \<le> snd top"
      by (simp_all add: top_def)
    have cand: "frameshift_candidate rep = (Some (fst top), snd top)"
      using u(3) mne by (simp add: ms_def [symmetric] top_def)
    from mem have "(fst top, snd top) \<in> set ms" by simp
    with dist have "map_of ms (fst top) = Some (snd top)" by (rule map_of_is_SomeI)
    then have cnt: "count_list events (fst top) = snd top"
      using tc [of "fst top"] by (simp add: table_count_def)
    have le: "count_list events l' \<le> snd top" for l'
    proof (cases "map_of ms l'")
      case None
      then have "table_count ms l' = 0" by (simp add: table_count_def)
      then show ?thesis using tc [of l'] by simp
    next
      case (Some c)
      then have "(l', c) \<in> set ms" by (rule map_of_SomeD)
      with mx have "c \<le> snd top" by auto
      moreover from Some have "table_count ms l' = c" by (simp add: table_count_def)
      ultimately show ?thesis using tc [of l'] by simp
    qed
    from ne obtain e where e: "e \<in> set events" by (cases events) auto
    then have "count_list events e \<noteq> 0" by (simp add: count_list_0_iff)
    then have "0 < count_list events e" by simp
    with le [of e] have "0 < snd top" by simp
    with cnt have "count_list events (fst top) \<noteq> 0" by simp
    then have "fst top \<in> set events" by (simp add: count_list_0_iff)
    with cand cnt le show ?thesis by auto
  qed
  have own: "\<forall>vs i. i < length vs \<longrightarrow> vs ! i \<notin> set (take i vs) \<longrightarrow>
                  first_visit_position vs (vs ! i) =
                    length (filter is_emitting_state (take i vs))"
    by (simp add: first_visit_position_own)
  show ?thesis
    unfolding Let_def events_def [symmetric] bps_def [symmetric]
    using tc none some u(2) u(4) own by (simp add: ms_def)
qed

text \<open>
  The witness: two copies of the read with a deleted column and an inserted \<open>T\<close>. The
  recorded unit lengths are 2, 4 and 3, so the intact unit contributes nothing, each
  label is counted twice, and the count 2 exceeds \<open>(18 / 9) / 3\<close>.
\<close>

theorem find_frameshift_from_selected_reads_witness:
  "find_frameshift_from_selected_reads frameshift_example_vntr
      [frameshift_example_read, frameshift_example_read]
     = Inr \<lparr>mutations = [(''D2'', 2), (''I2T'', 2)], frameshift_candidate = (Some ''I2T'', 2),
            repeating_bps_in_data = 18, frameshift_reported = True\<rparr>
   \<and> unit_lengths (visited_states_of (snd (snd frameshift_example_read))) = [2, 4, 3]
   \<and> indel_events 3 frameshift_example_read = [''D2'', ''I2T'']
   \<and> count_list (concat (map (indel_events (length (pattern frameshift_example_vntr)))
                    [frameshift_example_read, frameshift_example_read])) ''I2T'' = 2
   \<and> sum_list (map (\<lambda>r. repeat_bps (snd (snd r)))
                [frameshift_example_read, frameshift_example_read]) = 18"
proof -
  have r: "find_frameshift_from_selected_reads frameshift_example_vntr
      [frameshift_example_read, frameshift_example_read]
     = Inr \<lparr>mutations = [(''D2'', 2), (''I2T'', 2)], frameshift_candidate = (Some ''I2T'', 2),
            repeating_bps_in_data = 18, frameshift_reported = True\<rparr>"
    by code_simp
  have ul: "unit_lengths (visited_states_of (snd (snd frameshift_example_read))) = [2, 4, 3]"
    by code_simp
  have ev: "indel_events 3 frameshift_example_read = [''D2'', ''I2T'']"
    by code_simp
  note s = find_frameshift_from_selected_reads_spec [OF r, unfolded Let_def]
  from s have "table_count [(''D2'', 2), (''I2T'', 2)] ''I2T'' =
      count_list (concat (map (indel_events (length (pattern frameshift_example_vntr)))
                    [frameshift_example_read, frameshift_example_read])) ''I2T''"
    by simp
  then have c: "count_list (concat (map (indel_events (length (pattern frameshift_example_vntr)))
                    [frameshift_example_read, frameshift_example_read])) ''I2T'' = 2"
    by (simp add: table_count_def)
  from s have b: "sum_list (map (\<lambda>r. repeat_bps (snd (snd r)))
                [frameshift_example_read, frameshift_example_read]) = 18"
    by simp
  show ?thesis by (intro conjI r ul ev c b)
qed

text \<open>
  C3. With no selected read and no counted VNTR base pair
  \<open>find_repeat_count_from_alignment_file\<close> does not return a copy number of 0: the list
  \<open>observed_repeats\<close> is empty and its maximum raises ValueError, whatever the reference
  VNTR and the coverage are.
\<close>

theorem find_repeat_count_no_recruit_raises:
  "find_repeat_count_from_alignment_file vntr [] 0 0 mean_coverage get_scaled_coverage
     = Inl ValueError"
  by (simp add: find_repeat_count_from_alignment_file_def py_max_def)


end
